theory Spec2Isabelle
  imports Complex_Main "HOL-Library.Log_Nat"
begin

section \<open>Errors\<close>

text \<open>
  Every exception of the source is a \<open>std::runtime_error\<close>; the constructors below name
  them after the situation that raises them.  The last two are not exceptions: they mark
  executions whose behaviour C++ leaves undefined (a store through an index outside the
  array, and a read of a local variable that was never assigned).
\<close>

datatype error =
    IOError
  | ShapeError
  | DimensionError
  | ContiguityError
  | UnsupportedError
  | InvalidModelError
  | FormatError
  | OutOfBounds
  | IndeterminateRead

section \<open>Characters and input streams\<close>

definition isspace :: "char \<Rightarrow> bool" where
  "isspace c = (c = CHR '' '' \<or> c = CHR 0x09 \<or> c = CHR 0x0A \<or> c = CHR 0x0B
                 \<or> c = CHR 0x0C \<or> c = CHR 0x0D)"

definition isdigit :: "char \<Rightarrow> bool" where
  "isdigit c = (c \<in> set ''0123456789'')"

definition digit_val :: "char \<Rightarrow> int" where
  "digit_val c = of_char c - 48"

definition digits_val :: "string \<Rightarrow> int" where
  "digits_val ds = foldl (\<lambda>a c. 10 * a + digit_val c) 0 ds"

definition is_colon :: "char \<Rightarrow> bool" where
  "is_colon i = (i = CHR '':'')"

text \<open>\<open>boost::trim\<close>: drops leading and trailing white space.\<close>

definition trim :: "string \<Rightarrow> string" where
  "trim s = rev (dropWhile isspace (rev (dropWhile isspace s)))"

text \<open>
  An input stream (\<open>std::ifstream\<close> or \<open>std::istringstream\<close>): the bytes it was opened
  on, the part not yet read, and the two state bits the source can observe.  The stream
  functions below are those of the C++ standard library that the source calls, with the
  behaviour the standard gives them in the classic locale; read errors of the device
  (\<open>badbit\<close>) are left out.
\<close>

record istream =
  data :: string
  rest :: string
  eofbit :: bool
  failbit :: bool

definition good :: "istream \<Rightarrow> bool" where
  "good s = (\<not> eofbit s \<and> \<not> failbit s)"

definition stream_on :: "string \<Rightarrow> istream" where
  "stream_on bytes = \<lparr>data = bytes, rest = bytes, eofbit = False, failbit = False\<rparr>"

text \<open>A stream whose file could not be opened.\<close>

definition stream_failed :: istream where
  "stream_failed = \<lparr>data = [], rest = [], eofbit = False, failbit = True\<rparr>"

text \<open>\<open>m_file.clear(); m_file.seekg(0, std::ios_base::beg)\<close>\<close>

definition clear_seek0 :: "istream \<Rightarrow> istream" where
  "clear_seek0 s = s\<lparr>rest := data s, eofbit := False, failbit := False\<rparr>"

text \<open>
  \<open>std::getline(s, line)\<close>: characters up to the next newline, which is consumed and
  dropped.  Running into the end of the input sets \<open>eofbit\<close>, and \<open>failbit\<close> as well
  when nothing at all was extracted.  On a stream that is not good the line is left as
  it was.
\<close>

definition getline :: "istream \<Rightarrow> string \<Rightarrow> istream \<times> string" where
  "getline s line =
     (if \<not> good s then (s\<lparr>failbit := True\<rparr>, line)
      else
        let l = takeWhile (\<lambda>c. c \<noteq> CHR 0x0A) (rest s) in
        case dropWhile (\<lambda>c. c \<noteq> CHR 0x0A) (rest s) of
          [] \<Rightarrow> (s\<lparr>rest := [], eofbit := True, failbit := (l = [])\<rparr>, l)
        | _ # r \<Rightarrow> (s\<lparr>rest := r\<rparr>, l))"

text \<open>
  The sentry of a formatted extraction: fails on a stream that is not good, otherwise
  skips white space and fails when that reaches the end of the input.
\<close>

definition sentry :: "istream \<Rightarrow> istream \<times> bool" where
  "sentry s =
     (if \<not> good s then (s\<lparr>failbit := True\<rparr>, False)
      else
        case dropWhile isspace (rest s) of
          [] \<Rightarrow> (s\<lparr>rest := [], eofbit := True, failbit := True\<rparr>, False)
        | c # r \<Rightarrow> (s\<lparr>rest := c # r\<rparr>, True))"

text \<open>An optional sign: whether it is a minus, and what follows it.\<close>

definition strip_sign :: "string \<Rightarrow> bool \<times> string" where
  "strip_sign r =
     (case r of
        [] \<Rightarrow> (False, [])
      | c # r' \<Rightarrow> if c = CHR ''-'' then (True, r')
                  else if c = CHR ''+'' then (False, r') else (False, c # r'))"

text \<open>An optional sign followed by decimal digits: sign, digits, what follows.\<close>

definition lex_int :: "string \<Rightarrow> bool \<times> string \<times> string" where
  "lex_int r =
     (case strip_sign r of (neg, r1) \<Rightarrow> (neg, takeWhile isdigit r1, dropWhile isdigit r1))"

text \<open>
  The extractions return the value stored into the target, or \<open>None\<close> when the target
  is left untouched (the sentry failed).  When the sentry succeeds but no number can be
  read, zero is stored and \<open>failbit\<close> is set; a number outside the target type is
  replaced by the nearest bound and \<open>failbit\<close> is set.
\<close>

definition extract_int :: "istream \<Rightarrow> istream \<times> int option" where
  "extract_int s =
     (case sentry s of
        (s1, False) \<Rightarrow> (s1, None)
      | (s1, True) \<Rightarrow>
          (case lex_int (rest s1) of (neg, ds, r) \<Rightarrow>
            let s2 = s1\<lparr>rest := r, eofbit := (r = [])\<rparr>;
                v = (if neg then - digits_val ds else digits_val ds)
            in if ds = [] then (s2\<lparr>failbit := True\<rparr>, Some 0)
               else if v < - (2 ^ 31) then (s2\<lparr>failbit := True\<rparr>, Some (- (2 ^ 31)))
               else if 2 ^ 31 - 1 < v then (s2\<lparr>failbit := True\<rparr>, Some (2 ^ 31 - 1))
               else (s2, Some v)))"

definition extract_size_t :: "istream \<Rightarrow> istream \<times> nat option" where
  "extract_size_t s =
     (case sentry s of
        (s1, False) \<Rightarrow> (s1, None)
      | (s1, True) \<Rightarrow>
          (case lex_int (rest s1) of (neg, ds, r) \<Rightarrow>
            let s2 = s1\<lparr>rest := r, eofbit := (r = [])\<rparr>;
                v = digits_val ds
            in if ds = [] then (s2\<lparr>failbit := True\<rparr>, Some 0)
               else if 2 ^ 64 - 1 < v then (s2\<lparr>failbit := True\<rparr>, Some (nat (2 ^ 64 - 1)))
               else if neg then (s2, Some (nat ((2 ^ 64 - v) mod 2 ^ 64)))
               else (s2, Some (nat v))))"

definition extract_char :: "istream \<Rightarrow> istream \<times> char option" where
  "extract_char s =
     (case sentry s of
        (s1, False) \<Rightarrow> (s1, None)
      | (s1, True) \<Rightarrow>
          (case rest s1 of
             [] \<Rightarrow> (s1, None)
           | c # r \<Rightarrow> (s1\<lparr>rest := r\<rparr>, Some c)))"

text \<open>
  The characters a floating-point extraction accumulates after the sign: digits, at most
  one decimal point (before any exponent), and at most one exponent mark, which needs a
  digit before it and takes an optional sign with it.  The flags say whether a digit, a
  point and an exponent mark have been seen.  Result: the accumulated text (the exponent
  mark always as \<open>e\<close>) and what follows.
\<close>

fun lex_float :: "bool \<Rightarrow> bool \<Rightarrow> bool \<Rightarrow> string \<Rightarrow> string \<times> string" where
  "lex_float m d e [] = ([], [])"
| "lex_float m d e (c # cs) =
     (if isdigit c then (case lex_float True d e cs of (x, r) \<Rightarrow> (c # x, r))
      else if c = CHR ''.'' \<and> \<not> d \<and> \<not> e then
        (case lex_float m True e cs of (x, r) \<Rightarrow> (c # x, r))
      else if (c = CHR ''e'' \<or> c = CHR ''E'') \<and> \<not> e \<and> m then
        (case cs of
           [] \<Rightarrow> ([CHR ''e''], [])
         | c' # cs' \<Rightarrow>
             if c' = CHR ''+'' \<or> c' = CHR ''-'' then
               (case lex_float m d True cs' of (x, r) \<Rightarrow> (CHR ''e'' # c' # x, r))
             else (case lex_float m d True (c' # cs') of (x, r) \<Rightarrow> (CHR ''e'' # x, r)))
      else ([], c # cs))"

definition lex_double :: "string \<Rightarrow> string \<times> string" where
  "lex_double r =
     (case r of
        [] \<Rightarrow> ([], [])
      | c # r' \<Rightarrow>
          if c = CHR ''-'' \<or> c = CHR ''+'' then
            (case lex_float False False False r' of (x, q) \<Rightarrow> (c # x, q))
          else lex_float False False False (c # r'))"

text \<open>
  The exact decimal value of the accumulated text; \<open>None\<close> when the text is not a
  complete number (no digit in the mantissa, or an exponent mark without digits).
\<close>

definition decimal_value :: "string \<Rightarrow> rat option" where
  "decimal_value x =
     (case strip_sign x of (neg, x1) \<Rightarrow>
        let mant = takeWhile (\<lambda>c. c \<noteq> CHR ''e'') x1;
            ex = dropWhile (\<lambda>c. c \<noteq> CHR ''e'') x1;
            ip = takeWhile isdigit mant;
            fp = drop 1 (dropWhile isdigit mant);
            m = of_int (digits_val (ip @ fp)) / 10 ^ length fp;
            sm = (if neg then - m else m)
        in if ip = [] \<and> fp = [] then None
           else
             (case ex of
                [] \<Rightarrow> Some sm
              | _ # ex1 \<Rightarrow>
                  (case strip_sign ex1 of (eneg, eds) \<Rightarrow>
                     if eds = [] then None
                     else Some (if eneg then sm / 10 ^ nat (digits_val eds)
                                else sm * 10 ^ nat (digits_val eds)))))"

text \<open>
  A \<open>double\<close> is a binary64 number, kept as the rational number it stands for (the sign
  of a zero is not kept).  \<open>binary64 x\<close> is the double nearest to \<open>x\<close>, ties going to the
  even significand, as \<open>strtod\<close> delivers it: the significand has 53 bits, the exponent
  of the last bit is at least \<open>-1074\<close>, and \<open>None\<close> stands for a result that is
  infinite (the rounded value would be \<open>2 ^ 1024\<close> or more).  \<open>ilog2 x\<close> is the
  exponent of the leading bit of a positive \<open>x\<close>.
\<close>

definition pow2 :: "int \<Rightarrow> rat" where
  "pow2 k = (if 0 \<le> k then 2 ^ nat k else 1 / 2 ^ nat (- k))"

definition ilog2 :: "rat \<Rightarrow> int" where
  "ilog2 x =
     (case quotient_of x of (p, q) \<Rightarrow>
        let e0 = bitlen p - bitlen q in if pow2 e0 \<le> x then e0 else e0 - 1)"

definition round_even :: "rat \<Rightarrow> int" where
  "round_even y =
     (let f = \<lfloor>y\<rfloor>; r = y - of_int f
      in if r < 1 / 2 then f else if 1 / 2 < r then f + 1
         else if even f then f else f + 1)"

definition binary64 :: "rat \<Rightarrow> rat option" where
  "binary64 x =
     (if x = 0 then Some 0
      else
        let a = \<bar>x\<bar>;
            l = ilog2 a;
            e = max l (- 1022) - 52;
            n = round_even (a / pow2 e);
            d = of_int n * pow2 e
        in if 1024 \<le> l \<or> (l = 1023 \<and> n = 2 ^ 53) then None
           else Some (if x < 0 then - d else d))"

definition DBL_MAX :: rat where
  "DBL_MAX = (2 ^ 53 - 1) * 2 ^ 971"

text \<open>
  The conversion of the accumulated text by \<open>strtod\<close> and its three outcomes for the
  extraction: the text is not a complete number; the number is too large for a
  \<open>double\<close> (with its sign); or the double it is read as.
\<close>

datatype converted = NoNumber | TooLarge bool | Double rat

definition strtod :: "string \<Rightarrow> converted" where
  "strtod x =
     (case decimal_value x of
        None \<Rightarrow> NoNumber
      | Some v \<Rightarrow> (case binary64 v of None \<Rightarrow> TooLarge (v < 0) | Some d \<Rightarrow> Double d))"

text \<open>
  The extraction of a \<open>double\<close>.  Text that is not a number stores zero and sets
  \<open>failbit\<close>; a number too large stores the largest finite double of its sign and sets
  \<open>failbit\<close>.
\<close>

definition extract_double :: "istream \<Rightarrow> istream \<times> rat option" where
  "extract_double s =
     (case sentry s of
        (s1, False) \<Rightarrow> (s1, None)
      | (s1, True) \<Rightarrow>
          (case lex_double (rest s1) of (x, r) \<Rightarrow>
            let s2 = s1\<lparr>rest := r, eofbit := (r = [])\<rparr>
            in (case strtod x of
                  NoNumber \<Rightarrow> (s2\<lparr>failbit := True\<rparr>, Some 0)
                | TooLarge neg \<Rightarrow>
                    (s2\<lparr>failbit := True\<rparr>, Some (if neg then - DBL_MAX else DBL_MAX))
                | Double d \<Rightarrow> (s2, Some d))))"

text \<open>
  The content of a variable after an extraction into it; \<open>None\<close> is a variable that
  has never been assigned.
\<close>

definition assigned :: "'a option \<Rightarrow> 'a option \<Rightarrow> 'a option" where
  "assigned old new = (case new of None \<Rightarrow> old | Some v \<Rightarrow> Some v)"

section \<open>SVMFile: the sparse text format\<close>

text \<open>
  The file system is a map from file names to file contents; it is the same one at every
  call on a given object.
\<close>

record svmfile =
  m_filename :: string
  m_file :: istream
  m_shape :: nat
  m_n_samples :: nat

text \<open>
  Opening an \<open>std::ifstream\<close>: a missing file sets \<open>failbit\<close>, a successful open
  starts at the first byte with a clear state (also when the stream object was used
  before, as in \<open>reset\<close>).
\<close>

definition ifstream_open :: "(string \<rightharpoonup> string) \<Rightarrow> string \<Rightarrow> istream" where
  "ifstream_open fs name = (case fs name of None \<Rightarrow> stream_failed | Some bytes \<Rightarrow> stream_on bytes)"

text \<open>What is left for the termination arguments: nothing once the stream is not good.\<close>

definition remaining :: "istream \<Rightarrow> nat" where
  "remaining s = (if good s then Suc (length (rest s)) else 0)"

lemma getline_remaining: "good s \<Longrightarrow> remaining (fst (getline s l)) < remaining s"
proof -
  assume g: "good s"
  have "length (dropWhile (\<lambda>c. c \<noteq> CHR 0x0A) (rest s)) \<le> length (rest s)"
    by (rule length_dropWhile_le)
  with g show ?thesis
    by (auto simp: getline_def remaining_def good_def Let_def split: list.splits)
qed

lemma getline_remaining_snd:
  "good s \<Longrightarrow> (s', l') = getline s l \<Longrightarrow> remaining s' < remaining s"
  using getline_remaining [of s l] by (metis fst_conv)

text \<open>
  ``Gets the next non-empty line'': the loop shared by the constructor and \<open>read_\<close>.
  It leaves with an empty line exactly when it stopped because the stream was not good.
\<close>

function next_line :: "istream \<Rightarrow> istream \<times> string" where
  "next_line s =
     (if \<not> good s then (s, [])
      else
        case getline s [] of (s', l) \<Rightarrow>
          if trim l \<noteq> [] then (s', trim l) else next_line s')"
  by pat_completeness auto
termination
  by (relation "measure remaining")
     (auto dest: getline_remaining [THEN less_imp_le] simp: getline_remaining_snd)

declare next_line.simps [simp del]

lemma next_line_remaining_le: "remaining (fst (next_line s)) \<le> remaining s"
proof (induction s rule: next_line.induct)
  case (1 s)
  show ?case
  proof (cases "good s")
    case False
    then show ?thesis by (simp add: next_line.simps [of s])
  next
    case True
    obtain s' l where gl: "getline s [] = (s', l)" by (cases "getline s []")
    have lt: "remaining s' < remaining s"
      using getline_remaining [OF True, of "[]"] gl by simp
    show ?thesis
    proof (cases "trim l \<noteq> []")
      case True
      with \<open>good s\<close> gl lt show ?thesis by (simp add: next_line.simps [of s])
    next
      case False
      with "1.IH" [OF _ gl [symmetric]] \<open>good s\<close> gl lt show ?thesis
        by (simp add: next_line.simps [of s])
    qed
  qed
qed

lemma next_line_remaining: "good s \<Longrightarrow> remaining (fst (next_line s)) < remaining s"
proof -
  assume g: "good s"
  obtain s' l where gl: "getline s [] = (s', l)" by (cases "getline s []")
  have lt: "remaining s' < remaining s"
    using getline_remaining [OF g, of "[]"] gl by simp
  show ?thesis
    using g gl lt next_line_remaining_le [of s']
    by (simp add: next_line.simps [of s])
qed

text \<open>
  The constructor's loop over the pairs of one line:
  \<open>iss >> pos >> separator >> value; if (m_shape < pos) m_shape = pos;\<close>
  with \<open>size_t pos\<close> declared without an initial value.
\<close>

fun scan_pairs :: "nat \<Rightarrow> istream \<Rightarrow> nat option \<Rightarrow> nat \<Rightarrow> error + nat" where
  "scan_pairs 0 iss pos shape = Inr shape"
| "scan_pairs (Suc k) iss pos shape =
     (case extract_size_t iss of (iss1, p) \<Rightarrow>
      case extract_char iss1 of (iss2, c) \<Rightarrow>
      case extract_double iss2 of (iss3, v) \<Rightarrow>
        (case assigned pos p of
           None \<Rightarrow> Inl IndeterminateRead
         | Some pos' \<Rightarrow> scan_pairs k iss3 (Some pos') (if shape < pos' then pos' else shape)))"

text \<open>The constructor's outer loop: ``scan the whole file, gets the shape and total size''.\<close>

function scan_file :: "istream \<Rightarrow> nat \<Rightarrow> nat \<Rightarrow> error + (istream \<times> nat \<times> nat)" where
  "scan_file s shape n =
     (if \<not> good s then Inr (s, shape, n)
      else
        case next_line s of (s', line) \<Rightarrow>
          if \<not> good s' then Inr (s', shape, n)
          else
            let n_values = length (filter is_colon line) in
            (case extract_int (stream_on line) of (iss, label) \<Rightarrow>
               (case scan_pairs n_values iss None shape of
                  Inl e \<Rightarrow> Inl e
                | Inr shape' \<Rightarrow> scan_file s' shape' (n + 1))))"
  by pat_completeness auto
termination
proof (relation "measure (\<lambda>(s, shape, n). remaining s)", goal_cases)
  case 1
  show ?case by simp
next
  case (2 s shape n x s' line)
  then show ?case using next_line_remaining [of s] by (simp add: fst_def split: prod.splits)
qed

declare scan_file.simps [simp del]

definition SVMFile :: "(string \<rightharpoonup> string) \<Rightarrow> string \<Rightarrow> error + svmfile" where
  "SVMFile fs filename =
     (let f = ifstream_open fs filename in
      if failbit f then Inl IOError
      else
        (case scan_file f 0 0 of
           Inl e \<Rightarrow> Inl e
         | Inr (f', shape, n) \<Rightarrow>
             Inr \<lparr>m_filename = filename, m_file = clear_seek0 f',
                  m_shape = shape, m_n_samples = n\<rparr>))"


text \<open>
  The loop of \<open>read_\<close>, run \<open>m_shape\<close> times:
  \<open>iss >> pos >> separator >> value; values(pos-1) = value;\<close>
  with \<open>int pos\<close> and \<open>double value\<close> declared without initial values.  The array
  does not check its index.
\<close>

fun read_pairs :: "nat \<Rightarrow> istream \<Rightarrow> int option \<Rightarrow> rat option \<Rightarrow> rat list \<Rightarrow> error + rat list" where
  "read_pairs 0 iss pos val values = Inr values"
| "read_pairs (Suc k) iss pos val values =
     (case extract_int iss of (iss1, p) \<Rightarrow>
      case extract_char iss1 of (iss2, c) \<Rightarrow>
      case extract_double iss2 of (iss3, v) \<Rightarrow>
        (case (assigned pos p, assigned val v) of
           (Some pos', Some val') \<Rightarrow>
             if 0 \<le> pos' - 1 \<and> pos' - 1 < int (length values)
             then read_pairs k iss3 (Some pos') (Some val') (values[nat (pos' - 1) := val'])
             else Inl OutOfBounds
         | _ \<Rightarrow> Inl IndeterminateRead))"

text \<open>
  \<open>read_\<close> (here \<open>read'\<close>) and \<open>read\<close> return the result, the object, and the
  contents of the two reference parameters.
\<close>

definition read' :: "svmfile \<Rightarrow> int \<Rightarrow> rat list \<Rightarrow> error + (bool \<times> svmfile \<times> int \<times> rat list)" where
  "read' f label values =
     (if \<not> good (m_file f) then Inr (False, f, label, values)
      else
        case next_line (m_file f) of (s', line) \<Rightarrow>
          if line = [] then Inr (False, f\<lparr>m_file := s'\<rparr>, label, values)
          else
            (case extract_int (stream_on line) of (iss, l) \<Rightarrow>
               (case read_pairs (m_shape f) iss None None (replicate (length values) 0) of
                  Inl e \<Rightarrow> Inl e
                | Inr values' \<Rightarrow>
                    Inr (True, f\<lparr>m_file := s'\<rparr>, (case l of None \<Rightarrow> label | Some v \<Rightarrow> v), values'))))"

definition read :: "svmfile \<Rightarrow> int \<Rightarrow> rat list \<Rightarrow> error + (bool \<times> svmfile \<times> int \<times> rat list)" where
  "read f label values =
     (if length values \<noteq> m_shape f then Inl ShapeError else read' f label values)"

section \<open>SupportVector: the prediction engine\<close>

text \<open>
  Binary64 arithmetic is not modelled.  The type \<open>'d\<close> stands for \<open>double\<close>, and what
  the engine needs from it comes as parameters, together with the functions of libsvm and
  of the C library it calls: subtraction, division, the test \<open>!tmp\<close>, the constants
  \<open>0.0\<close> and \<open>1.0\<close>, \<open>round\<close>, and the solver's entry points.
\<close>

record 'd svm_node =
  index :: int
  val :: 'd

text \<open>
  The part of libsvm's \<open>svm_model\<close> the engine reads: the number of classes and the
  support vectors, each an array of nodes that ends at the first node of index \<open>-1\<close>.
  The field \<open>l\<close> of the structure is the length of \<open>SV\<close>.
\<close>

record 'd svm_model =
  nr_class :: nat
  SV :: "'d svm_node list list"

text \<open>
  A node of the cache.  \<open>new svm_node[n]\<close> leaves both fields unassigned (\<open>None\<close>).
\<close>

record 'd cache_node =
  c_index :: "int option"
  c_val :: "'d option"

text \<open>A one-dimensional \<open>blitz::Array\<close> handed in for output.\<close>

record 'd out_array =
  elems :: "'d list"
  isCContiguous :: bool

record 'd env =
  fsub :: "'d \<Rightarrow> 'd \<Rightarrow> 'd"
  fdiv :: "'d \<Rightarrow> 'd \<Rightarrow> 'd"
  is_zero :: "'d \<Rightarrow> bool"
  fzero :: 'd
  fone :: 'd
  round_int :: "'d \<Rightarrow> int"
  LIBSVM_VERSION :: nat
  svm_load_model :: "string \<Rightarrow> 'd svm_model option"
  svm_unpickle_model :: "nat list \<Rightarrow> 'd svm_model option"
  svm_check_probability_model :: "'d svm_model \<Rightarrow> bool"
  svm_predict :: "'d svm_model \<Rightarrow> 'd cache_node list \<Rightarrow> 'd"
  svm_predict_values :: "'d svm_model \<Rightarrow> 'd cache_node list \<Rightarrow> nat \<Rightarrow> 'd \<times> 'd list"
  svm_predict_probability :: "'d svm_model \<Rightarrow> 'd cache_node list \<Rightarrow> nat \<Rightarrow> 'd \<times> 'd list"

record 'd machine =
  m_model :: "'d svm_model"
  m_input_size :: nat
  m_input_cache :: "'d cache_node list"
  m_input_sub :: "'d list"
  m_input_div :: "'d list"

text \<open>
  The inner loop of \<open>reset\<close> over one support vector:
  \<open>while (end->index != -1) { if (end->index > (int)m_input_size) m_input_size = end->index; ++end; }\<close>
  An array without terminator lets the loop run past its end.
\<close>

fun scan_sv :: "'d svm_node list \<Rightarrow> nat \<Rightarrow> error + nat" where
  "scan_sv [] sz = Inl OutOfBounds"
| "scan_sv (e # es) sz =
     (if index e \<noteq> - 1
      then scan_sv es (if index e > int sz then nat (index e) else sz)
      else Inr sz)"

text \<open>The outer loop of \<open>reset\<close>: \<open>for (int k=0; k<m_model->l; ++k)\<close>.\<close>

fun scan_svs :: "'d svm_node list list \<Rightarrow> nat \<Rightarrow> error + nat" where
  "scan_svs [] sz = Inr sz"
| "scan_svs (sv # svs) sz =
     (case scan_sv sv sz of
        Inl e \<Rightarrow> Inl e
      | Inr sz' \<Rightarrow> scan_svs svs sz')"

definition inputSize :: "'d machine \<Rightarrow> nat" where
  "inputSize st = m_input_size st"

text \<open>\<open>SupportVector::reset\<close>, the recompute step.\<close>

definition reset :: "'d env \<Rightarrow> 'd machine \<Rightarrow> error + 'd machine" where
  "reset E st =
     (case scan_svs (SV (m_model st)) 0 of
        Inl e \<Rightarrow> Inl e
      | Inr sz \<Rightarrow>
          let st1 = st\<lparr>m_input_size := sz\<rparr>;
              st2 = st1\<lparr>m_input_cache :=
                           replicate (1 + m_input_size st1) \<lparr>c_index = None, c_val = None\<rparr>\<rparr>;
              st3 = st2\<lparr>m_input_sub := replicate (inputSize st2) (fzero E)\<rparr>;
              st4 = st3\<lparr>m_input_div := replicate (inputSize st3) (fone E)\<rparr>
          in Inr st4)"

text \<open>The members before the constructor body runs: only the model is set.\<close>

definition fresh :: "'d svm_model \<Rightarrow> 'd machine" where
  "fresh m = \<lparr>m_model = m, m_input_size = 0, m_input_cache = [],
              m_input_sub = [], m_input_div = []\<rparr>"

text \<open>\<open>SupportVector(const std::string& model_file)\<close>\<close>

definition SupportVector_file :: "'d env \<Rightarrow> string \<Rightarrow> error + 'd machine" where
  "SupportVector_file E model_file =
     (case svm_load_model E model_file of
        None \<Rightarrow> Inl IOError
      | Some m \<Rightarrow> reset E (fresh m))"

text \<open>\<open>SupportVector(boost::shared_ptr<svm_model> model)\<close>; \<open>None\<close> is the null pointer.\<close>

definition SupportVector_model :: "'d env \<Rightarrow> 'd svm_model option \<Rightarrow> error + 'd machine" where
  "SupportVector_model E model =
     (case model of
        None \<Rightarrow> Inl InvalidModelError
      | Some m \<Rightarrow> reset E (fresh m))"

text \<open>
  The entries of the container that \<open>SupportVector(bob::io::HDF5File&)\<close> reads.  The
  container itself is code outside this repository; \<open>config.readArray(name, a)\<close> is
  taken to store the named entry into \<open>a\<close>.
\<close>

record 'd hdf5 =
  version :: nat
  svm_model_entry :: "nat list"
  input_subtract :: "'d list"
  input_divide :: "'d list"

text \<open>The test in front of the compatibility warning, which changes nothing else.\<close>

definition version_warning :: "'d env \<Rightarrow> 'd hdf5 \<Rightarrow> bool" where
  "version_warning E config = (LIBSVM_VERSION E div 100 > version config div 100)"

text \<open>\<open>svm_unpickle\<close>: a buffer that libsvm cannot load raises.\<close>

definition svm_unpickle :: "'d env \<Rightarrow> nat list \<Rightarrow> error + 'd svm_model" where
  "svm_unpickle E buffer =
     (case svm_unpickle_model E buffer of
        None \<Rightarrow> Inl FormatError
      | Some m \<Rightarrow> Inr m)"

definition SupportVector_hdf5 :: "'d env \<Rightarrow> 'd hdf5 \<Rightarrow> error + 'd machine" where
  "SupportVector_hdf5 E config =
     (case svm_unpickle E (svm_model_entry config) of
        Inl e \<Rightarrow> Inl e
      | Inr m \<Rightarrow>
          (case reset E (fresh m) of
             Inl e \<Rightarrow> Inl e
           | Inr st \<Rightarrow>
               let st1 = st\<lparr>m_input_sub := input_subtract config\<rparr>;
                   st2 = st1\<lparr>m_input_div := input_divide config\<rparr>
               in Inr st2))"

definition supportsProbability :: "'d env \<Rightarrow> 'd machine \<Rightarrow> bool" where
  "supportsProbability E st = svm_check_probability_model E (m_model st)"

definition outputSize :: "'d machine \<Rightarrow> nat" where
  "outputSize st = (let retval = nr_class (m_model st) in if retval = 2 then 1 else retval)"

definition numberOfClasses :: "'d machine \<Rightarrow> nat" where
  "numberOfClasses st = nr_class (m_model st)"

definition setInputSubtraction :: "'d machine \<Rightarrow> 'd list \<Rightarrow> error + 'd machine" where
  "setInputSubtraction st v =
     (if inputSize st > length v then Inl DimensionError
      else Inr (st\<lparr>m_input_sub := v\<rparr>))"

definition setInputDivision :: "'d machine \<Rightarrow> 'd list \<Rightarrow> error + 'd machine" where
  "setInputDivision st v =
     (if inputSize st > length v then Inl DimensionError
      else Inr (st\<lparr>m_input_div := v\<rparr>))"

text \<open>
  The loop of \<open>copy\<close>, from position \<open>k\<close> with \<open>n\<close> positions to go.  None of the
  arrays checks its index.
\<close>

fun copy_loop ::
  "'d env \<Rightarrow> 'd list \<Rightarrow> 'd list \<Rightarrow> 'd list \<Rightarrow> nat \<Rightarrow> nat \<Rightarrow> 'd cache_node list \<Rightarrow> nat
     \<Rightarrow> error + ('d cache_node list \<times> nat)" where
  "copy_loop E input sub div' 0 k cache cur = Inr (cache, cur)"
| "copy_loop E input sub div' (Suc n) k cache cur =
     (if k < length input \<and> k < length sub \<and> k < length div' then
        let tmp = fdiv E (fsub E (input ! k) (sub ! k)) (div' ! k) in
        if is_zero E tmp then copy_loop E input sub div' n (k + 1) cache cur
        else if cur < length cache then
          copy_loop E input sub div' n (k + 1)
            (cache[cur := \<lparr>c_index = Some (int k + 1), c_val = Some tmp\<rparr>]) (cur + 1)
        else Inl OutOfBounds
      else Inl OutOfBounds)"

definition copy ::
  "'d env \<Rightarrow> 'd list \<Rightarrow> nat \<Rightarrow> 'd cache_node list \<Rightarrow> 'd list \<Rightarrow> 'd list
     \<Rightarrow> error + 'd cache_node list" where
  "copy E input cache_size cache sub div' =
     (case copy_loop E input sub div' cache_size 0 cache 0 of
        Inl e \<Rightarrow> Inl e
      | Inr (cache', cur) \<Rightarrow>
          if cur < length cache'
          then Inr (cache'[cur := (cache' ! cur)\<lparr>c_index := Some (- 1)\<rparr>])
          else Inl OutOfBounds)"

text \<open>
  The prediction functions return the class, the engine (its cache is overwritten) and,
  where there is one, the filled output array.  The solver writes into the data of the
  output array; its entry points are given the length of that array and return the new
  contents.  \<open>predictClassAndScores_\<close> is the variant compiled for
  \<open>LIBSVM_VERSION > 290\<close>.  Names that end in an underscore in the source end in a
  prime here.
\<close>

definition predictClass' :: "'d env \<Rightarrow> 'd machine \<Rightarrow> 'd list \<Rightarrow> error + (int \<times> 'd machine)" where
  "predictClass' E st input =
     (case copy E input (m_input_size st) (m_input_cache st) (m_input_sub st) (m_input_div st) of
        Inl e \<Rightarrow> Inl e
      | Inr cache \<Rightarrow>
          Inr (round_int E (svm_predict E (m_model st) cache), st\<lparr>m_input_cache := cache\<rparr>))"

definition predictClass :: "'d env \<Rightarrow> 'd machine \<Rightarrow> 'd list \<Rightarrow> error + (int \<times> 'd machine)" where
  "predictClass E st input =
     (if length input < inputSize st then Inl DimensionError
      else predictClass' E st input)"

definition predictClassAndScores' ::
  "'d env \<Rightarrow> 'd machine \<Rightarrow> 'd list \<Rightarrow> 'd out_array \<Rightarrow> error + (int \<times> 'd machine \<times> 'd out_array)" where
  "predictClassAndScores' E st input scores =
     (case copy E input (m_input_size st) (m_input_cache st) (m_input_sub st) (m_input_div st) of
        Inl e \<Rightarrow> Inl e
      | Inr cache \<Rightarrow>
          (case svm_predict_values E (m_model st) cache (length (elems scores)) of
             (r, out) \<Rightarrow>
               Inr (round_int E r, st\<lparr>m_input_cache := cache\<rparr>, scores\<lparr>elems := out\<rparr>)))"

definition predictClassAndScores ::
  "'d env \<Rightarrow> 'd machine \<Rightarrow> 'd list \<Rightarrow> 'd out_array \<Rightarrow> error + (int \<times> 'd machine \<times> 'd out_array)" where
  "predictClassAndScores E st input scores =
     (if length input < inputSize st then Inl DimensionError
      else if \<not> isCContiguous scores then Inl ContiguityError
      else
        let N = outputSize st;
            size = (if N < 2 then 1 else (N * (N - 1)) div 2)
        in if length (elems scores) \<noteq> size then Inl DimensionError
           else predictClassAndScores' E st input scores)"

definition predictClassAndProbabilities' ::
  "'d env \<Rightarrow> 'd machine \<Rightarrow> 'd list \<Rightarrow> 'd out_array \<Rightarrow> error + (int \<times> 'd machine \<times> 'd out_array)" where
  "predictClassAndProbabilities' E st input probabilities =
     (case copy E input (m_input_size st) (m_input_cache st) (m_input_sub st) (m_input_div st) of
        Inl e \<Rightarrow> Inl e
      | Inr cache \<Rightarrow>
          (case svm_predict_probability E (m_model st) cache (length (elems probabilities)) of
             (r, out) \<Rightarrow>
               Inr (round_int E r, st\<lparr>m_input_cache := cache\<rparr>, probabilities\<lparr>elems := out\<rparr>)))"

definition predictClassAndProbabilities ::
  "'d env \<Rightarrow> 'd machine \<Rightarrow> 'd list \<Rightarrow> 'd out_array \<Rightarrow> error + (int \<times> 'd machine \<times> 'd out_array)" where
  "predictClassAndProbabilities E st input probabilities =
     (if length input < inputSize st then Inl DimensionError
      else if \<not> supportsProbability E st then Inl UnsupportedError
      else if \<not> isCContiguous probabilities then Inl ContiguityError
      else if length (elems probabilities) \<noteq> outputSize st then Inl DimensionError
      else predictClassAndProbabilities' E st input probabilities)"

section \<open>The end-to-end scenario of the sparse format\<close>

definition two_lines :: string where
  "two_lines = ''1 1:0.5 3:2.0'' @ [CHR 0x0A] @ ''-1 2:1.0'' @ [CHR 0x0A]"

definition opened :: "string \<Rightarrow> nat \<Rightarrow> nat \<Rightarrow> string \<Rightarrow> svmfile" where
  "opened bytes sh n unread =
     \<lparr>m_filename = ''data.svm'',
      m_file = \<lparr>data = bytes, rest = unread, eofbit = False, failbit = False\<rparr>,
      m_shape = sh, m_n_samples = n\<rparr>"

lemma two_lines_open:
  "SVMFile [''data.svm'' \<mapsto> two_lines] ''data.svm'' = Inr (opened two_lines 3 2 two_lines)"
  by code_simp

lemma two_lines_read1:
  "read (opened two_lines 3 2 two_lines) l0 [a, b, c]
     = Inr (True, opened two_lines 3 2 (''-1 2:1.0'' @ [CHR 0x0A]), 1, [1 / 2, 0, 2])"
  by code_simp

lemma two_lines_read2:
  "read (opened two_lines 3 2 (''-1 2:1.0'' @ [CHR 0x0A])) l1 [a, b, c]
     = Inr (True, opened two_lines 3 2 [], - 1, [0, 1, 0])"
  by code_simp

lemma two_lines_read3:
  "read (opened two_lines 3 2 []) l2 [a, b, c]
     = Inr (False, (opened two_lines 3 2 [])\<lparr>m_file :=
              \<lparr>data = two_lines, rest = [], eofbit = True, failbit = True\<rparr>\<rparr>, l2, [a, b, c])"
  by code_simp

text \<open>
  Claim C1.  The file made of the two lines \<open>1 1:0.5 3:2.0\<close> and \<open>-1 2:1.0\<close>, each
  ended by a newline, opens with shape 3 and sample count 2.  Whatever the output
  variables hold before each call, the first \<open>read\<close> returns true with label 1 and
  vector [0.5, 0, 2.0], the second returns true with label -1 and vector [0, 1.0, 0], and
  the third returns false and leaves the output variables as they were.
\<close>

theorem C1_two_line_scenario:
  "SVMFile [''data.svm'' \<mapsto> two_lines] ''data.svm'' = Inr (opened two_lines 3 2 two_lines)
   \<and> m_shape (opened two_lines 3 2 two_lines) = 3
   \<and> m_n_samples (opened two_lines 3 2 two_lines) = 2
   \<and> read (opened two_lines 3 2 two_lines) l0 [a0, b0, c0]
       = Inr (True, opened two_lines 3 2 (''-1 2:1.0'' @ [CHR 0x0A]), 1, [1 / 2, 0, 2])
   \<and> read (opened two_lines 3 2 (''-1 2:1.0'' @ [CHR 0x0A])) l1 [a1, b1, c1]
       = Inr (True, opened two_lines 3 2 [], - 1, [0, 1, 0])
   \<and> (\<exists>f. read (opened two_lines 3 2 []) l2 [a2, b2, c2] = Inr (False, f, l2, [a2, b2, c2]))"
  using two_lines_open two_lines_read1 two_lines_read2 two_lines_read3
  by (simp add: opened_def)

section \<open>The recompute step\<close>

text \<open>
  The nodes of a support vector are those in front of its terminator.  The largest
  feature index of a model is taken over the nodes of all its support vectors, and is 0
  when there is none.
\<close>

definition sv_nodes :: "'d svm_node list \<Rightarrow> 'd svm_node list" where
  "sv_nodes sv = takeWhile (\<lambda>e. index e \<noteq> - 1) sv"

definition max_feature_index :: "'d svm_model \<Rightarrow> int" where
  "max_feature_index m = Max (insert 0 (index ` (\<Union>sv \<in> set (SV m). set (sv_nodes sv))))"

text \<open>What the recompute step is to establish for the model \<open>m\<close>.\<close>

definition recomputed :: "'d env \<Rightarrow> 'd svm_model \<Rightarrow> 'd machine \<Rightarrow> bool" where
  "recomputed E m st =
     (int (inputSize st) = max_feature_index m
      \<and> length (m_input_cache st) = inputSize st + 1
      \<and> m_input_sub st = replicate (inputSize st) (fzero E)
      \<and> m_input_div st = replicate (inputSize st) (fone E))"

lemma scan_sv_fold:
  "scan_sv sv sz = Inr r \<Longrightarrow> int r = fold max (map index (sv_nodes sv)) (int sz)"
proof (induction sv arbitrary: sz)
  case Nil
  then show ?case by simp
next
  case (Cons e es)
  show ?case
  proof (cases "index e = - 1")
    case True
    with Cons.prems show ?thesis by (simp add: sv_nodes_def)
  next
    case False
    let ?sz = "if index e > int sz then nat (index e) else sz"
    from False Cons.prems have "scan_sv es ?sz = Inr r" by simp
    then have "int r = fold max (map index (sv_nodes es)) (int ?sz)" by (rule Cons.IH)
    moreover have "int ?sz = max (index e) (int sz)" by auto
    ultimately show ?thesis using False by (simp add: sv_nodes_def)
  qed
qed

lemma scan_svs_fold:
  "scan_svs svs sz = Inr r \<Longrightarrow> int r = fold max (map index (concat (map sv_nodes svs))) (int sz)"
proof (induction svs arbitrary: sz)
  case Nil
  then show ?case by simp
next
  case (Cons sv svs)
  from Cons.prems obtain sz' where a: "scan_sv sv sz = Inr sz'" and b: "scan_svs svs sz' = Inr r"
    by (auto split: sum.splits)
  show ?case using scan_sv_fold [OF a] Cons.IH [OF b] by simp
qed

lemma scan_svs_Max:
  assumes "scan_svs svs 0 = Inr r"
  shows "int r = Max (insert 0 (index ` (\<Union>sv \<in> set svs. set (sv_nodes sv))))"
proof -
  let ?xs = "map index (concat (map sv_nodes svs))"
  have "int r = fold max ?xs 0" using scan_svs_fold [OF assms] by simp
  also have "\<dots> = Max (set (0 # ?xs))" by (rule Max.set_eq_fold [symmetric])
  also have "set (0 # ?xs) = insert 0 (index ` (\<Union>sv \<in> set svs. set (sv_nodes sv)))" by auto
  finally show ?thesis .
qed

lemma scan_sv_total:
  "\<exists>e \<in> set sv. index e = - 1 \<Longrightarrow> \<exists>r. scan_sv sv sz = Inr r"
  by (induction sv arbitrary: sz) auto

lemma scan_svs_total:
  "\<forall>sv \<in> set svs. \<exists>e \<in> set sv. index e = - 1 \<Longrightarrow> \<exists>r. scan_svs svs sz = Inr r"
proof (induction svs arbitrary: sz)
  case Nil
  then show ?case by simp
next
  case (Cons sv svs)
  then obtain r where "scan_sv sv sz = Inr r" using scan_sv_total [of sv sz] by auto
  with Cons show ?case by simp
qed

lemma reset_recomputed:
  assumes "reset E st = Inr st'"
  shows "recomputed E (m_model st) st'" and "m_model st' = m_model st"
proof -
  from assms obtain sz where sz: "scan_svs (SV (m_model st)) 0 = Inr sz"
    by (auto simp: reset_def split: sum.splits)
  with assms have st': "st' = st\<lparr>m_input_size := sz,
      m_input_cache := replicate (1 + sz) \<lparr>c_index = None, c_val = None\<rparr>,
      m_input_sub := replicate sz (fzero E), m_input_div := replicate sz (fone E)\<rparr>"
    by (simp add: reset_def Let_def inputSize_def)
  show "recomputed E (m_model st) st'"
    using scan_svs_Max [OF sz]
    by (simp add: st' recomputed_def inputSize_def max_feature_index_def)
  show "m_model st' = m_model st" by (simp add: st')
qed

lemma reset_total:
  assumes "\<forall>sv \<in> set (SV (m_model st)). \<exists>e \<in> set sv. index e = - 1"
  shows "\<exists>st'. reset E st = Inr st'"
proof -
  from scan_svs_total [OF assms] obtain r where "scan_svs (SV (m_model st)) 0 = Inr r" by blast
  then show ?thesis by (simp add: reset_def Let_def)
qed

lemma hdf5_steps:
  assumes "SupportVector_hdf5 E config = Inr st"
  shows "\<exists>m st0. svm_unpickle E (svm_model_entry config) = Inr m
           \<and> reset E (fresh m) = Inr st0
           \<and> st = st0\<lparr>m_input_sub := input_subtract config, m_input_div := input_divide config\<rparr>"
proof -
  from assms obtain m where m: "svm_unpickle E (svm_model_entry config) = Inr m"
    by (auto simp: SupportVector_hdf5_def split: sum.splits)
  with assms obtain st0 where st0: "reset E (fresh m) = Inr st0"
    by (auto simp: SupportVector_hdf5_def split: sum.splits)
  from assms m st0
  have "st = st0\<lparr>m_input_sub := input_subtract config, m_input_div := input_divide config\<rparr>"
    by (simp add: SupportVector_hdf5_def Let_def)
  with m st0 show ?thesis by blast
qed

subsection \<open>An environment for the examples\<close>

text \<open>
  In the examples a \<open>double\<close> is a rational number or \<open>None\<close>, which stands for every
  result that is not finite; dividing by zero gives \<open>None\<close>.  The solver is a stub with
  one model of three classes and input size 3.
\<close>

definition ext_sub :: "rat option \<Rightarrow> rat option \<Rightarrow> rat option" where
  "ext_sub a b = (case (a, b) of (Some x, Some y) \<Rightarrow> Some (x - y) | _ \<Rightarrow> None)"

definition ext_div :: "rat option \<Rightarrow> rat option \<Rightarrow> rat option" where
  "ext_div a b =
     (case (a, b) of (Some x, Some y) \<Rightarrow> if y = 0 then None else Some (x / y) | _ \<Rightarrow> None)"

definition model3 :: "rat option svm_model" where
  "model3 = \<lparr>nr_class = 3,
      SV = [[\<lparr>index = 1, val = Some (1 / 2)\<rparr>, \<lparr>index = 3, val = Some 2\<rparr>, \<lparr>index = - 1, val = Some 0\<rparr>],
            [\<lparr>index = 2, val = Some 1\<rparr>, \<lparr>index = - 1, val = Some 0\<rparr>]]\<rparr>"

definition E_ext :: "rat option env" where
  "E_ext = \<lparr>fsub = ext_sub, fdiv = ext_div, is_zero = (\<lambda>a. a = Some 0),
      fzero = Some 0, fone = Some 1,
      round_int = (\<lambda>a. case a of None \<Rightarrow> 0 | Some x \<Rightarrow> round x),
      LIBSVM_VERSION = 317,
      svm_load_model = (\<lambda>name. if name = ''model.svm'' then Some model3 else None),
      svm_unpickle_model = (\<lambda>buffer. if buffer = [] then None else Some model3),
      svm_check_probability_model = (\<lambda>m. False),
      svm_predict = (\<lambda>m x. Some 1),
      svm_predict_values = (\<lambda>m x n. (Some 1, replicate n (Some 0))),
      svm_predict_probability = (\<lambda>m x n. (Some 1, replicate n (Some 0)))\<rparr>"

definition blank :: "rat option cache_node" where
  "blank = \<lparr>c_index = None, c_val = None\<rparr>"

definition machine3 :: "rat option machine" where
  "machine3 = \<lparr>m_model = model3, m_input_size = 3,
      m_input_cache = [blank, blank, blank, blank],
      m_input_sub = [Some 0, Some 0, Some 0], m_input_div = [Some 1, Some 1, Some 1]\<rparr>"

definition config3 :: "rat option hdf5" where
  "config3 = \<lparr>version = 317, svm_model_entry = [115, 118, 109],
      input_subtract = [Some 1, Some 2, Some 3], input_divide = [Some 2, Some 4, Some 8]\<rparr>"

lemma reset_model3: "reset E_ext (fresh model3) = Inr machine3"
  by code_simp

lemma file_model3: "SupportVector_file E_ext ''model.svm'' = Inr machine3"
  by code_simp

lemma adopt_model3: "SupportVector_model E_ext (Some model3) = Inr machine3"
  by code_simp

lemma hdf5_model3:
  "SupportVector_hdf5 E_ext config3 =
     Inr (machine3\<lparr>m_input_sub := [Some 1, Some 2, Some 3], m_input_div := [Some 2, Some 4, Some 8]\<rparr>)"
  by code_simp

text \<open>
  Claim C5.  Whenever the recompute step \<open>reset\<close> succeeds, the input size is the
  largest feature index over the support vectors of the model, the cache has one node
  more than the input size, and subtract and divide are the all-zero and the all-one
  vector of that length.  Each of the three constructors, when it succeeds, has run
  that step on the model it obtained; the one that loads from a container then
  overwrites subtract and divide (claim C3).
\<close>

theorem C5_recompute:
  "(reset E st = Inr st' \<longrightarrow> recomputed E (m_model st) st')
   \<and> (SupportVector_file E model_file = Inr st' \<longrightarrow>
        (\<exists>m. svm_load_model E model_file = Some m \<and> reset E (fresh m) = Inr st'
              \<and> recomputed E m st'))
   \<and> (SupportVector_model E model = Inr st' \<longrightarrow>
        (\<exists>m. model = Some m \<and> reset E (fresh m) = Inr st' \<and> recomputed E m st'))
   \<and> (SupportVector_hdf5 E config = Inr st' \<longrightarrow>
        (\<exists>m st0. svm_unpickle E (svm_model_entry config) = Inr m
              \<and> reset E (fresh m) = Inr st0 \<and> recomputed E m st0))"
proof (intro conjI impI)
  assume "reset E st = Inr st'"
  then show "recomputed E (m_model st) st'" by (rule reset_recomputed)
next
  assume a: "SupportVector_file E model_file = Inr st'"
  then obtain m where m: "svm_load_model E model_file = Some m"
    by (auto simp: SupportVector_file_def split: option.splits)
  with a have r: "reset E (fresh m) = Inr st'" by (simp add: SupportVector_file_def)
  from reset_recomputed(1) [OF r] have "recomputed E m st'" by (simp add: fresh_def)
  with m r show "\<exists>m. svm_load_model E model_file = Some m \<and> reset E (fresh m) = Inr st'
              \<and> recomputed E m st'" by blast
next
  assume a: "SupportVector_model E model = Inr st'"
  then obtain m where m: "model = Some m"
    by (auto simp: SupportVector_model_def split: option.splits)
  with a have r: "reset E (fresh m) = Inr st'" by (simp add: SupportVector_model_def)
  from reset_recomputed(1) [OF r] have "recomputed E m st'" by (simp add: fresh_def)
  with m r show "\<exists>m. model = Some m \<and> reset E (fresh m) = Inr st' \<and> recomputed E m st'"
    by blast
next
  assume "SupportVector_hdf5 E config = Inr st'"
  from hdf5_steps [OF this] obtain m st0 where
    m: "svm_unpickle E (svm_model_entry config) = Inr m" and r: "reset E (fresh m) = Inr st0"
    by blast
  from reset_recomputed(1) [OF r] have "recomputed E m st0" by (simp add: fresh_def)
  with m r show "\<exists>m st0. svm_unpickle E (svm_model_entry config) = Inr m
              \<and> reset E (fresh m) = Inr st0 \<and> recomputed E m st0" by blast
qed

theorem C5_recompute_witness:
  "reset E_ext (fresh model3) = Inr machine3
   \<and> SupportVector_file E_ext ''model.svm'' = Inr machine3
   \<and> SupportVector_model E_ext (Some model3) = Inr machine3
   \<and> SupportVector_hdf5 E_ext config3 =
       Inr (machine3\<lparr>m_input_sub := [Some 1, Some 2, Some 3], m_input_div := [Some 2, Some 4, Some 8]\<rparr>)
   \<and> recomputed E_ext model3 machine3
   \<and> inputSize machine3 = 3
   \<and> length (m_input_cache machine3) = 4
   \<and> m_input_sub machine3 = [Some 0, Some 0, Some 0]
   \<and> m_input_div machine3 = [Some 1, Some 1, Some 1]"
proof -
  have "recomputed E_ext (m_model (fresh model3)) machine3"
    using C5_recompute [of E_ext "fresh model3" machine3] reset_model3 by blast
  then have "recomputed E_ext model3 machine3" by (simp add: fresh_def)
  then show ?thesis
    using reset_model3 file_model3 adopt_model3 hdf5_model3
    by (simp add: machine3_def inputSize_def)
qed

section \<open>Loading an engine from a container\<close>

text \<open>
  Claim C3.  When loading from a container succeeds, the recompute step has run on the
  freshly unpickled model and left the identity defaults; the stored vectors were read
  after it, so the engine ends with the stored subtract and divide and the input size
  the recompute step found.
\<close>

theorem C3_load_order:
  assumes "SupportVector_hdf5 E config = Inr st"
  shows "\<exists>m st0. svm_unpickle E (svm_model_entry config) = Inr m
           \<and> reset E (fresh m) = Inr st0
           \<and> m_input_sub st0 = replicate (inputSize st0) (fzero E)
           \<and> m_input_div st0 = replicate (inputSize st0) (fone E)
           \<and> st = st0\<lparr>m_input_sub := input_subtract config, m_input_div := input_divide config\<rparr>
           \<and> m_input_sub st = input_subtract config
           \<and> m_input_div st = input_divide config
           \<and> inputSize st = inputSize st0"
proof -
  from hdf5_steps [OF assms] obtain m st0 where
    m: "svm_unpickle E (svm_model_entry config) = Inr m" and r: "reset E (fresh m) = Inr st0"
    and st: "st = st0\<lparr>m_input_sub := input_subtract config, m_input_div := input_divide config\<rparr>"
    by blast
  from reset_recomputed(1) [OF r] m r st show ?thesis
    by (auto simp: recomputed_def inputSize_def)
qed

theorem C3_load_order_witness:
  "SupportVector_hdf5 E_ext config3 =
     Inr (machine3\<lparr>m_input_sub := [Some 1, Some 2, Some 3], m_input_div := [Some 2, Some 4, Some 8]\<rparr>)
   \<and> reset E_ext (fresh model3) = Inr machine3
   \<and> m_input_sub machine3 = [Some 0, Some 0, Some 0]
   \<and> m_input_div machine3 = [Some 1, Some 1, Some 1]
   \<and> input_subtract config3 = [Some 1, Some 2, Some 3]
   \<and> input_divide config3 = [Some 2, Some 4, Some 8]"
proof -
  let ?st = "machine3\<lparr>m_input_sub := [Some 1, Some 2, Some 3], m_input_div := [Some 2, Some 4, Some 8]\<rparr>"
  from C3_load_order [OF hdf5_model3]
  have "m_input_sub ?st = input_subtract config3 \<and> m_input_div ?st = input_divide config3"
    by blast
  then show ?thesis using hdf5_model3 reset_model3 by (simp add: machine3_def)
qed

section \<open>The sparse encoding of an input\<close>

text \<open>
  The encoding as the specification words it: for each position \<open>k\<close> below the input
  size, in order, the normalized value \<open>(input[k] - subtract[k]) / divide[k]\<close>; nothing
  for a value that is zero, otherwise the node of index \<open>k + 1\<close> carrying the value.
  \<open>sparse_encoding E input sub div k n\<close> covers the \<open>n\<close> positions from \<open>k\<close> on.
\<close>

definition normalized :: "'d env \<Rightarrow> 'd list \<Rightarrow> 'd list \<Rightarrow> 'd list \<Rightarrow> nat \<Rightarrow> 'd" where
  "normalized E input sub div' k = fdiv E (fsub E (input ! k) (sub ! k)) (div' ! k)"

definition sparse_encoding ::
  "'d env \<Rightarrow> 'd list \<Rightarrow> 'd list \<Rightarrow> 'd list \<Rightarrow> nat \<Rightarrow> nat \<Rightarrow> 'd cache_node list" where
  "sparse_encoding E input sub div' k n =
     map (\<lambda>j. \<lparr>c_index = Some (int j + 1), c_val = Some (normalized E input sub div' j)\<rparr>)
       (filter (\<lambda>j. \<not> is_zero E (normalized E input sub div' j)) [k..<k + n])"

text \<open>
  The cache after encoding: the nodes of the encoding, then the terminator, which is the
  node that was there with its index set to \<open>-1\<close>, then what the cache held further on.
\<close>

definition encoded_cache ::
  "'d env \<Rightarrow> 'd list \<Rightarrow> nat \<Rightarrow> 'd cache_node list \<Rightarrow> 'd list \<Rightarrow> 'd list \<Rightarrow> 'd cache_node list" where
  "encoded_cache E input n cache sub div' =
     (let enc = sparse_encoding E input sub div' 0 n
      in enc @ [(cache ! length enc)\<lparr>c_index := Some (- 1)\<rparr>] @ drop (Suc (length enc)) cache)"

lemma sparse_encoding_0 [simp]: "sparse_encoding E input sub div' k 0 = []"
  by (simp add: sparse_encoding_def)

lemma sparse_encoding_Suc:
  "sparse_encoding E input sub div' k (Suc n) =
     (if is_zero E (normalized E input sub div' k) then sparse_encoding E input sub div' (Suc k) n
      else \<lparr>c_index = Some (int k + 1), c_val = Some (normalized E input sub div' k)\<rparr>
             # sparse_encoding E input sub div' (Suc k) n)"
proof -
  have "[k..<k + Suc n] = k # [Suc k..<Suc k + n]"
    by (simp add: upt_conv_Cons del: upt_Suc)
  then show ?thesis by (simp add: sparse_encoding_def del: upt_Suc)
qed

lemma length_sparse_encoding: "length (sparse_encoding E input sub div' k n) \<le> n"
proof -
  have "length (filter (\<lambda>j. \<not> is_zero E (normalized E input sub div' j)) [k..<k + n])
          \<le> length [k..<k + n]"
    by (rule length_filter_le)
  then show ?thesis by (simp add: sparse_encoding_def)
qed

lemma copy_loop_encoding:
  "k + n \<le> length input \<Longrightarrow> k + n \<le> length sub \<Longrightarrow> k + n \<le> length div'
   \<Longrightarrow> cur + n \<le> length cache
   \<Longrightarrow> copy_loop E input sub div' n k cache cur =
         Inr (take cur cache @ sparse_encoding E input sub div' k n
                @ drop (cur + length (sparse_encoding E input sub div' k n)) cache,
              cur + length (sparse_encoding E input sub div' k n))"
proof (induction n arbitrary: k cache cur)
  case 0
  then show ?case by simp
next
  case (Suc n)
  let ?tmp = "normalized E input sub div' k"
  have inb: "k < length input" "k < length sub" "k < length div'" "cur < length cache"
    using Suc.prems by simp_all
  show ?case
  proof (cases "is_zero E ?tmp")
    case True
    have "copy_loop E input sub div' (Suc n) k cache cur = copy_loop E input sub div' n (Suc k) cache cur"
      using True inb by (simp add: normalized_def)
    also have "\<dots> = Inr (take cur cache @ sparse_encoding E input sub div' (Suc k) n
                @ drop (cur + length (sparse_encoding E input sub div' (Suc k) n)) cache,
              cur + length (sparse_encoding E input sub div' (Suc k) n))"
      using Suc.prems by (intro Suc.IH) simp_all
    finally show ?thesis using True by (simp add: sparse_encoding_Suc)
  next
    case False
    let ?node = "\<lparr>c_index = Some (int k + 1), c_val = Some ?tmp\<rparr>"
    let ?cache = "cache[cur := ?node]"
    let ?enc = "sparse_encoding E input sub div' (Suc k) n"
    have "copy_loop E input sub div' (Suc n) k cache cur
            = copy_loop E input sub div' n (Suc k) ?cache (Suc cur)"
      using False inb by (simp add: normalized_def)
    also have "\<dots> = Inr (take (Suc cur) ?cache @ ?enc @ drop (Suc cur + length ?enc) ?cache,
              Suc cur + length ?enc)"
      using Suc.prems by (intro Suc.IH) simp_all
    also have "take (Suc cur) ?cache = take cur cache @ [?node]"
      using inb by (simp add: take_Suc_conv_app_nth)
    also have "drop (Suc cur + length ?enc) ?cache = drop (Suc cur + length ?enc) cache"
      by simp
    finally show ?thesis using False by (simp add: sparse_encoding_Suc)
  qed
qed

lemma copy_encoding:
  assumes "n \<le> length input" "n \<le> length sub" "n \<le> length div'" "n < length cache"
  shows "copy E input n cache sub div' =
           Inr (sparse_encoding E input sub div' 0 n
                @ [(cache ! length (sparse_encoding E input sub div' 0 n))\<lparr>c_index := Some (- 1)\<rparr>]
                @ drop (Suc (length (sparse_encoding E input sub div' 0 n))) cache)"
proof -
  let ?enc = "sparse_encoding E input sub div' 0 n"
  have len: "length ?enc < length cache"
    using length_sparse_encoding [of E input sub div' 0 n] assms(4) by simp
  have loop: "copy_loop E input sub div' n 0 cache 0 = Inr (?enc @ drop (length ?enc) cache, length ?enc)"
    using copy_loop_encoding [of 0 n input sub div' 0 cache E] assms by simp
  have upd: "(?enc @ drop (length ?enc) cache)[length ?enc := x]
               = ?enc @ [x] @ drop (Suc (length ?enc)) cache" for x
    using len by (simp add: list_update_append Cons_nth_drop_Suc [symmetric])
  have nth: "(?enc @ drop (length ?enc) cache) ! length ?enc = cache ! length ?enc"
    using len by (simp add: nth_append)
  show ?thesis using len by (simp add: copy_def loop upd nth del: append.simps)
qed

lemma copy_loop_error:
  "copy_loop E input sub div' n k cache cur = Inl e \<Longrightarrow> e = OutOfBounds"
  by (induction E input sub div' n k cache cur rule: copy_loop.induct)
     (auto simp: Let_def split: if_splits)

lemma copy_error: "copy E input n cache sub div' = Inl e \<Longrightarrow> e = OutOfBounds"
  by (auto simp: copy_def split: sum.splits prod.splits if_splits dest: copy_loop_error)


definition input3 :: "rat option list" where
  "input3 = [Some (1 / 2), Some 0, Some 2]"

definition cache3 :: "rat option cache_node list" where
  "cache3 = [\<lparr>c_index = Some 1, c_val = Some (Some (1 / 2))\<rparr>,
             \<lparr>c_index = Some 3, c_val = Some (Some 2)\<rparr>,
             \<lparr>c_index = Some (- 1), c_val = None\<rparr>,
             blank]"

text \<open>
  Claim C6.  With an input, a subtract and a divide vector of at least the input size
  and a cache of more nodes than the input size, \<open>copy\<close> succeeds and leaves in the
  cache exactly the encoding of the specification followed by a node of index \<open>-1\<close>;
  each of the three prediction variants hands that cache to the solver.
\<close>

theorem C6_sparse_encoding:
  assumes "m_input_size st \<le> length input"
    and "m_input_size st \<le> length (m_input_sub st)"
    and "m_input_size st \<le> length (m_input_div st)"
    and "m_input_size st < length (m_input_cache st)"
  shows "let n = m_input_size st;
             enc = sparse_encoding E input (m_input_sub st) (m_input_div st) 0 n;
             cache' = encoded_cache E input n (m_input_cache st) (m_input_sub st) (m_input_div st)
         in copy E input n (m_input_cache st) (m_input_sub st) (m_input_div st) = Inr cache'
            \<and> take (length enc) cache' = enc
            \<and> c_index (cache' ! length enc) = Some (- 1)
            \<and> predictClass' E st input =
                Inr (round_int E (svm_predict E (m_model st) cache'), st\<lparr>m_input_cache := cache'\<rparr>)
            \<and> predictClassAndScores' E st input scores =
                Inr (round_int E (fst (svm_predict_values E (m_model st) cache' (length (elems scores)))),
                     st\<lparr>m_input_cache := cache'\<rparr>,
                     scores\<lparr>elems := snd (svm_predict_values E (m_model st) cache' (length (elems scores)))\<rparr>)
            \<and> predictClassAndProbabilities' E st input probabilities =
                Inr (round_int E (fst (svm_predict_probability E (m_model st) cache' (length (elems probabilities)))),
                     st\<lparr>m_input_cache := cache'\<rparr>,
                     probabilities\<lparr>elems := snd (svm_predict_probability E (m_model st) cache' (length (elems probabilities)))\<rparr>)"
proof -
  let ?n = "m_input_size st"
  let ?enc = "sparse_encoding E input (m_input_sub st) (m_input_div st) 0 ?n"
  let ?cache = "encoded_cache E input ?n (m_input_cache st) (m_input_sub st) (m_input_div st)"
  have c: "copy E input ?n (m_input_cache st) (m_input_sub st) (m_input_div st) = Inr ?cache"
    using copy_encoding [OF assms, of E] by (simp add: encoded_cache_def Let_def)
  have t: "take (length ?enc) ?cache = ?enc"
    by (simp add: encoded_cache_def Let_def)
  have i: "c_index (?cache ! length ?enc) = Some (- 1)"
    by (simp add: encoded_cache_def Let_def nth_append)
  have p1: "predictClass' E st input =
      Inr (round_int E (svm_predict E (m_model st) ?cache), st\<lparr>m_input_cache := ?cache\<rparr>)"
    by (simp add: predictClass'_def c)
  have p2: "predictClassAndScores' E st input scores =
      Inr (round_int E (fst (svm_predict_values E (m_model st) ?cache (length (elems scores)))),
           st\<lparr>m_input_cache := ?cache\<rparr>,
           scores\<lparr>elems := snd (svm_predict_values E (m_model st) ?cache (length (elems scores)))\<rparr>)"
    by (simp add: predictClassAndScores'_def c split: prod.splits)
  have p3: "predictClassAndProbabilities' E st input probabilities =
      Inr (round_int E (fst (svm_predict_probability E (m_model st) ?cache (length (elems probabilities)))),
           st\<lparr>m_input_cache := ?cache\<rparr>,
           probabilities\<lparr>elems := snd (svm_predict_probability E (m_model st) ?cache (length (elems probabilities)))\<rparr>)"
    by (simp add: predictClassAndProbabilities'_def c split: prod.splits)
  show ?thesis unfolding Let_def using c t i p1 p2 p3 by blast
qed

lemma encoding3:
  "sparse_encoding E_ext input3 (m_input_sub machine3) (m_input_div machine3) 0 3
     = [\<lparr>c_index = Some 1, c_val = Some (Some (1 / 2))\<rparr>, \<lparr>c_index = Some 3, c_val = Some (Some 2)\<rparr>]"
  by code_simp

lemma encoded3:
  "encoded_cache E_ext input3 3 (m_input_cache machine3) (m_input_sub machine3) (m_input_div machine3)
     = cache3"
  by code_simp

theorem C6_sparse_encoding_witness:
  "m_input_size machine3 \<le> length input3
   \<and> m_input_size machine3 \<le> length (m_input_sub machine3)
   \<and> m_input_size machine3 \<le> length (m_input_div machine3)
   \<and> m_input_size machine3 < length (m_input_cache machine3)
   \<and> copy E_ext input3 3 (m_input_cache machine3) (m_input_sub machine3) (m_input_div machine3)
       = Inr cache3
   \<and> predictClass' E_ext machine3 input3 = Inr (1, machine3\<lparr>m_input_cache := cache3\<rparr>)"
proof -
  have h: "m_input_size machine3 \<le> length input3"
    "m_input_size machine3 \<le> length (m_input_sub machine3)"
    "m_input_size machine3 \<le> length (m_input_div machine3)"
    "m_input_size machine3 < length (m_input_cache machine3)"
    by (simp_all add: machine3_def input3_def)
  have n: "m_input_size machine3 = 3" by (simp add: machine3_def)
  have r: "round_int E_ext (svm_predict E_ext (m_model machine3) cache3) = 1"
    by (simp add: E_ext_def)
  from C6_sparse_encoding [OF h, of E_ext]
  have "copy E_ext input3 3 (m_input_cache machine3) (m_input_sub machine3) (m_input_div machine3)
          = Inr cache3
        \<and> predictClass' E_ext machine3 input3 = Inr (1, machine3\<lparr>m_input_cache := cache3\<rparr>)"
    unfolding Let_def n encoded3 r by blast
  with h show ?thesis by blast
qed

section \<open>The division vector\<close>

definition zero_div :: "rat option list" where
  "zero_div = [Some 0, Some 4, Some 8]"

definition input_ones :: "rat option list" where
  "input_ones = [Some 1, Some 0, Some 2]"

definition cache_zero_div :: "rat option cache_node list" where
  "cache_zero_div = [\<lparr>c_index = Some 1, c_val = Some None\<rparr>,
                     \<lparr>c_index = Some 3, c_val = Some (Some (1 / 4))\<rparr>,
                     \<lparr>c_index = Some (- 1), c_val = None\<rparr>,
                     blank]"

text \<open>
  Claim C10.  \<open>setInputDivision\<close> looks at the length of its argument only: a vector
  of at least the input size is stored as it is, whatever its entries.  The encoding then
  divides by the stored entries without any test: the cache holds the encoding computed
  with \<open>v\<close> as divisor, and every position whose quotient by \<open>v ! k\<close> is not zero has
  its node carrying that quotient in the cache.  No assumption is made on the entries of
  \<open>v\<close>, so they may be zero.
\<close>

theorem C10_division_unguarded:
  assumes "inputSize st \<le> length v"
  shows "setInputDivision st v = Inr (st\<lparr>m_input_div := v\<rparr>)
       \<and> (inputSize st \<le> length input \<longrightarrow> inputSize st \<le> length (m_input_sub st)
            \<longrightarrow> inputSize st < length (m_input_cache st) \<longrightarrow>
            (let st' = st\<lparr>m_input_div := v\<rparr>;
                 cache' = encoded_cache E input (m_input_size st') (m_input_cache st')
                            (m_input_sub st') v
             in copy E input (m_input_size st') (m_input_cache st') (m_input_sub st')
                  (m_input_div st') = Inr cache'
                \<and> (\<forall>k < inputSize st.
                      \<not> is_zero E (fdiv E (fsub E (input ! k) (m_input_sub st ! k)) (v ! k)) \<longrightarrow>
                      \<lparr>c_index = Some (int k + 1),
                       c_val = Some (fdiv E (fsub E (input ! k) (m_input_sub st ! k)) (v ! k))\<rparr>
                        \<in> set cache')))"
proof (intro conjI impI)
  show "setInputDivision st v = Inr (st\<lparr>m_input_div := v\<rparr>)"
    using assms by (simp add: setInputDivision_def)
next
  assume a: "inputSize st \<le> length input" "inputSize st \<le> length (m_input_sub st)"
    "inputSize st < length (m_input_cache st)"
  let ?n = "m_input_size st"
  let ?enc = "sparse_encoding E input (m_input_sub st) v 0 ?n"
  let ?cache = "encoded_cache E input ?n (m_input_cache st) (m_input_sub st) v"
  have c: "copy E input ?n (m_input_cache st) (m_input_sub st) v = Inr ?cache"
    using copy_encoding [of ?n input "m_input_sub st" v "m_input_cache st" E] a assms
    by (simp add: encoded_cache_def Let_def inputSize_def)
  have m: "\<lparr>c_index = Some (int k + 1),
            c_val = Some (fdiv E (fsub E (input ! k) (m_input_sub st ! k)) (v ! k))\<rparr> \<in> set ?cache"
    if "k < inputSize st"
      and "\<not> is_zero E (fdiv E (fsub E (input ! k) (m_input_sub st ! k)) (v ! k))" for k
  proof -
    have "\<lparr>c_index = Some (int k + 1), c_val = Some (normalized E input (m_input_sub st) v k)\<rparr>
            \<in> set ?enc"
      using that by (auto simp: sparse_encoding_def normalized_def inputSize_def)
    then show ?thesis by (simp add: encoded_cache_def Let_def normalized_def)
  qed
  show "let st' = st\<lparr>m_input_div := v\<rparr>;
            cache' = encoded_cache E input (m_input_size st') (m_input_cache st')
                       (m_input_sub st') v
        in copy E input (m_input_size st') (m_input_cache st') (m_input_sub st')
             (m_input_div st') = Inr cache'
           \<and> (\<forall>k < inputSize st.
                 \<not> is_zero E (fdiv E (fsub E (input ! k) (m_input_sub st ! k)) (v ! k)) \<longrightarrow>
                 \<lparr>c_index = Some (int k + 1),
                  c_val = Some (fdiv E (fsub E (input ! k) (m_input_sub st ! k)) (v ! k))\<rparr>
                   \<in> set cache')"
    using c m by (simp add: Let_def)
qed

lemma encoded_zero_div:
  "encoded_cache E_ext input_ones 3 (m_input_cache machine3) (m_input_sub machine3) zero_div
     = cache_zero_div"
  by code_simp

theorem C10_division_unguarded_witness:
  "inputSize machine3 \<le> length zero_div
   \<and> zero_div ! 0 = Some 0
   \<and> setInputDivision machine3 zero_div = Inr (machine3\<lparr>m_input_div := zero_div\<rparr>)
   \<and> copy E_ext input_ones 3 (m_input_cache machine3) (m_input_sub machine3) zero_div
       = Inr cache_zero_div
   \<and> \<lparr>c_index = Some 1, c_val = Some (ext_div (Some 1) (Some 0))\<rparr> \<in> set cache_zero_div"
proof -
  have h: "inputSize machine3 \<le> length zero_div"
    by (simp add: inputSize_def machine3_def zero_div_def)
  have a: "inputSize machine3 \<le> length input_ones"
    "inputSize machine3 \<le> length (m_input_sub machine3)"
    "inputSize machine3 < length (m_input_cache machine3)"
    by (simp_all add: inputSize_def machine3_def input_ones_def)
  have n: "m_input_size machine3 = 3" by (simp add: machine3_def)
  have q: "fdiv E_ext (fsub E_ext (input_ones ! 0) (m_input_sub machine3 ! 0)) (zero_div ! 0)
             = ext_div (Some 1) (Some 0)"
    by (simp add: E_ext_def input_ones_def machine3_def zero_div_def ext_sub_def)
  have z: "\<not> is_zero E_ext (ext_div (Some 1) (Some 0))"
    by (simp add: E_ext_def ext_div_def)
  have k: "(0::nat) < inputSize machine3" by (simp add: inputSize_def machine3_def)
  from C10_division_unguarded [OF h, of input_ones E_ext] a
  have s: "setInputDivision machine3 zero_div = Inr (machine3\<lparr>m_input_div := zero_div\<rparr>)"
    and c: "copy E_ext input_ones 3 (m_input_cache machine3) (m_input_sub machine3) zero_div
              = Inr cache_zero_div"
    and m: "\<forall>k < inputSize machine3.
              \<not> is_zero E_ext (fdiv E_ext (fsub E_ext (input_ones ! k) (m_input_sub machine3 ! k)) (zero_div ! k)) \<longrightarrow>
              \<lparr>c_index = Some (int k + 1),
               c_val = Some (fdiv E_ext (fsub E_ext (input_ones ! k) (m_input_sub machine3 ! k)) (zero_div ! k))\<rparr>
                \<in> set cache_zero_div"
    by (simp_all add: Let_def n encoded_zero_div)
  from m [rule_format, OF k] q z
  have "\<lparr>c_index = Some 1, c_val = Some (ext_div (Some 1) (Some 0))\<rparr> \<in> set cache_zero_div"
    by simp
  with h s c show ?thesis by (simp add: zero_div_def)
qed

section \<open>The length of the scores\<close>

text \<open>The number of scores as the specification words it, for \<open>C = outputSize()\<close>.\<close>

definition required_scores :: "nat \<Rightarrow> nat" where
  "required_scores C = (if C < 2 then 1 else C * (C - 1) div 2)"

definition machine2 :: "rat option machine" where
  "machine2 = machine3\<lparr>m_model := model3\<lparr>nr_class := 2\<rparr>\<rparr>"

definition scores_of :: "nat \<Rightarrow> bool \<Rightarrow> rat option out_array" where
  "scores_of n c = \<lparr>elems = replicate n (Some 0), isCContiguous = c\<rparr>"

text \<open>
  Claim C4, as it stands, fails on a scores array that is not contiguous: the contiguity
  test comes first, so a wrong length is then answered by the contiguity error.
\<close>

theorem C4_counterexample:
  "inputSize machine3 \<le> length input3
   \<and> length (elems (scores_of 2 False)) \<noteq> required_scores (outputSize machine3)
   \<and> predictClassAndScores E_ext machine3 input3 (scores_of 2 False) = Inl ContiguityError
   \<and> predictClassAndScores E_ext machine3 input3 (scores_of 2 False) \<noteq> Inl DimensionError"
  by (simp add: predictClassAndScores_def inputSize_def machine3_def input3_def scores_of_def
        required_scores_def outputSize_def model3_def)

text \<open>
  Claim C4, amended.  For every model, every input of at least the input size and every
  contiguous scores array, \<open>predictClassAndScores\<close> raises the dimension error exactly
  when the length of the scores differs from 1 if \<open>outputSize() < 2\<close> and from
  \<open>outputSize() * (outputSize() - 1) / 2\<close> otherwise.  A model of two classes has output
  size 1; with output size 1 the required length is 1, with output size 3 it is 3.
\<close>

theorem C4_scores_length:
  assumes "inputSize st \<le> length input" and "isCContiguous scores"
  shows "((predictClassAndScores E st input scores = Inl DimensionError)
            = (length (elems scores) \<noteq> required_scores (outputSize st)))
       \<and> (nr_class (m_model st) = 2 \<longrightarrow> outputSize st = 1)
       \<and> (outputSize st = 1 \<longrightarrow>
            ((predictClassAndScores E st input scores = Inl DimensionError)
               = (length (elems scores) \<noteq> 1)))
       \<and> (outputSize st = 3 \<longrightarrow>
            ((predictClassAndScores E st input scores = Inl DimensionError)
               = (length (elems scores) \<noteq> 3)))"
proof -
  have inner: "predictClassAndScores' E st input scores \<noteq> Inl DimensionError"
    by (auto simp: predictClassAndScores'_def split: sum.splits prod.splits dest: copy_error)
  have main: "(predictClassAndScores E st input scores = Inl DimensionError)
                = (length (elems scores) \<noteq> required_scores (outputSize st))"
    using assms inner
    by (simp add: predictClassAndScores_def required_scores_def Let_def)
  have r1: "required_scores 1 = 1" and r3: "required_scores 3 = 3"
    by (simp_all add: required_scores_def)
  show ?thesis using main r1 r3 by (auto simp: outputSize_def)
qed

theorem C4_scores_length_witness:
  "inputSize machine3 \<le> length input3 \<and> isCContiguous (scores_of 2 True)
   \<and> outputSize machine3 = 3
   \<and> predictClassAndScores E_ext machine3 input3 (scores_of 2 True) = Inl DimensionError
   \<and> predictClassAndScores E_ext machine3 input3 (scores_of 3 True) \<noteq> Inl DimensionError
   \<and> nr_class (m_model machine2) = 2 \<and> outputSize machine2 = 1
   \<and> predictClassAndScores E_ext machine2 input3 (scores_of 3 True) = Inl DimensionError
   \<and> predictClassAndScores E_ext machine2 input3 (scores_of 1 True) \<noteq> Inl DimensionError"
proof -
  have h3: "inputSize machine3 \<le> length input3"
    and h2: "inputSize machine2 \<le> length input3"
    by (simp_all add: inputSize_def machine2_def machine3_def input3_def)
  have c: "isCContiguous (scores_of n True)" for n by (simp add: scores_of_def)
  have len: "length (elems (scores_of n True)) = n" for n by (simp add: scores_of_def)
  have o3: "outputSize machine3 = 3" and o2: "outputSize machine2 = 1"
    and n2: "nr_class (m_model machine2) = 2"
    by (simp_all add: outputSize_def machine2_def machine3_def model3_def)
  from C4_scores_length [OF h3 c, of E_ext 2] C4_scores_length [OF h3 c, of E_ext 3]
    C4_scores_length [OF h2 c, of E_ext 3] C4_scores_length [OF h2 c, of E_ext 1]
  show ?thesis using h3 c o3 o2 n2 by (simp add: len required_scores_def)
qed

section \<open>Well-formed lines of the sparse format\<close>

text \<open>
  The tokens of a record line: a label is an optionally signed decimal numeral that fits
  an \<open>int\<close>; an index is an unsigned decimal numeral from 1 to the largest \<open>int\<close>; a value
  is any text that the extraction of a \<open>double\<close> reads as a whole as one number within
  the range of \<open>double\<close>.
\<close>

definition is_digits :: "string \<Rightarrow> bool" where
  "is_digits ds = (ds \<noteq> [] \<and> list_all isdigit ds)"

definition label_val :: "string \<Rightarrow> int" where
  "label_val t = (case strip_sign t of (neg, ds) \<Rightarrow> if neg then - digits_val ds else digits_val ds)"

definition is_label :: "string \<Rightarrow> bool" where
  "is_label t = (is_digits (snd (strip_sign t)) \<and> - (2 ^ 31) \<le> label_val t \<and> label_val t \<le> 2 ^ 31 - 1)"

definition is_index :: "string \<Rightarrow> bool" where
  "is_index t = (is_digits t \<and> 1 \<le> digits_val t \<and> digits_val t \<le> 2 ^ 31 - 1)"

definition is_value :: "string \<Rightarrow> bool" where
  "is_value t =
     (t \<noteq> [] \<and> snd (lex_double t) = []
      \<and> (case strtod (fst (lex_double t)) of Double d \<Rightarrow> True | _ \<Rightarrow> False))"

definition value_val :: "string \<Rightarrow> rat" where
  "value_val t = (case strtod (fst (lex_double t)) of Double d \<Rightarrow> d | _ \<Rightarrow> 0)"

text \<open>The characters a floating-point extraction can accumulate.\<close>

definition float_char :: "char \<Rightarrow> bool" where
  "float_char c = (isdigit c \<or> c \<in> set ''.eE+-'')"

definition sep_or_end :: "string \<Rightarrow> bool" where
  "sep_or_end r = (case r of [] \<Rightarrow> True | c # r' \<Rightarrow> c = CHR '' '')"

lemma isdigit_not_space: "isdigit c \<Longrightarrow> \<not> isspace c"
  by (auto simp: isdigit_def isspace_def)

lemma float_char_not_space: "float_char c \<Longrightarrow> \<not> isspace c"
  by (auto simp: float_char_def isdigit_def isspace_def)

lemma float_char_not_colon: "float_char c \<Longrightarrow> \<not> is_colon c"
  by (auto simp: float_char_def isdigit_def is_colon_def)

lemma float_char_not_newline: "float_char c \<Longrightarrow> c \<noteq> CHR 0x0A"
  by (auto simp: float_char_def isdigit_def)

lemma space_not_float: "\<not> float_char CHR '' ''"
  by (simp add: float_char_def isdigit_def)

declare lex_float.simps(2) [simp del]

lemma lex_float_digit:
  "isdigit c \<Longrightarrow> lex_float m d e (c # cs) = (case lex_float True d e cs of (x, r) \<Rightarrow> (c # x, r))"
  by (subst lex_float.simps(2)) auto

lemma lex_float_point:
  "\<not> isdigit c \<Longrightarrow> c = CHR ''.'' \<and> \<not> d \<and> \<not> e
   \<Longrightarrow> lex_float m d e (c # cs) = (case lex_float m True e cs of (x, r) \<Rightarrow> (c # x, r))"
  by (subst lex_float.simps(2)) auto

lemma lex_float_exp_end:
  "\<not> isdigit c \<Longrightarrow> \<not> (c = CHR ''.'' \<and> \<not> d \<and> \<not> e) \<Longrightarrow> (c = CHR ''e'' \<or> c = CHR ''E'') \<and> \<not> e \<and> m
   \<Longrightarrow> lex_float m d e [c] = ([CHR ''e''], [])"
  by (subst lex_float.simps(2)) auto

lemma lex_float_exp_sign:
  "\<not> isdigit c \<Longrightarrow> \<not> (c = CHR ''.'' \<and> \<not> d \<and> \<not> e) \<Longrightarrow> (c = CHR ''e'' \<or> c = CHR ''E'') \<and> \<not> e \<and> m
   \<Longrightarrow> c' = CHR ''+'' \<or> c' = CHR ''-''
   \<Longrightarrow> lex_float m d e (c # c' # cs') =
         (case lex_float m d True cs' of (x, r) \<Rightarrow> (CHR ''e'' # c' # x, r))"
  by (subst lex_float.simps(2)) auto

lemma lex_float_exp_plain:
  "\<not> isdigit c \<Longrightarrow> \<not> (c = CHR ''.'' \<and> \<not> d \<and> \<not> e) \<Longrightarrow> (c = CHR ''e'' \<or> c = CHR ''E'') \<and> \<not> e \<and> m
   \<Longrightarrow> \<not> (c' = CHR ''+'' \<or> c' = CHR ''-'')
   \<Longrightarrow> lex_float m d e (c # c' # cs') =
         (case lex_float m d True (c' # cs') of (x, r) \<Rightarrow> (CHR ''e'' # x, r))"
  by (subst lex_float.simps(2)) auto

lemma lex_float_stop:
  "\<not> isdigit c \<Longrightarrow> \<not> (c = CHR ''.'' \<and> \<not> d \<and> \<not> e) \<Longrightarrow> \<not> ((c = CHR ''e'' \<or> c = CHR ''E'') \<and> \<not> e \<and> m)
   \<Longrightarrow> lex_float m d e (c # cs) = ([], c # cs)"
  by (subst lex_float.simps(2)) auto

lemma lex_float_chars:
  "lex_float m d e v = (x, []) \<Longrightarrow> list_all float_char v"
proof (induction m d e v arbitrary: x rule: lex_float.induct)
  case (1 m d e)
  then show ?case by simp
next
  case (2 m d e c cs)
  show ?case
  proof (cases "isdigit c")
    case True
    from "2.prems" [unfolded lex_float_digit [OF True]]
    obtain y where "lex_float True d e cs = (y, [])" by (auto split: prod.splits)
    with "2.IH"(1) [OF True] True show ?thesis by (simp add: float_char_def)
  next
    case nd: False
    show ?thesis
    proof (cases "c = CHR ''.'' \<and> \<not> d \<and> \<not> e")
      case True
      from "2.prems" [unfolded lex_float_point [OF nd True]]
      obtain y where "lex_float m True e cs = (y, [])" by (auto split: prod.splits)
      with "2.IH"(2) [OF nd True] True show ?thesis by (simp add: float_char_def)
    next
      case np: False
      show ?thesis
      proof (cases "(c = CHR ''e'' \<or> c = CHR ''E'') \<and> \<not> e \<and> m")
        case False
        from "2.prems" [unfolded lex_float_stop [OF nd np False]] show ?thesis by simp
      next
        case ex: True
        then have fc: "float_char c" by (auto simp: float_char_def)
        show ?thesis
        proof (cases cs)
          case Nil
          with fc show ?thesis by simp
        next
          case (Cons c' cs')
          show ?thesis
          proof (cases "c' = CHR ''+'' \<or> c' = CHR ''-''")
            case True
            from "2.prems" [unfolded Cons lex_float_exp_sign [OF nd np ex True]]
            obtain y where "lex_float m d True cs' = (y, [])" by (auto split: prod.splits)
            with "2.IH"(3) [OF nd np ex Cons True] True fc Cons show ?thesis
              by (auto simp: float_char_def)
          next
            case False
            from "2.prems" [unfolded Cons lex_float_exp_plain [OF nd np ex False]]
            obtain y where "lex_float m d True (c' # cs') = (y, [])" by (auto split: prod.splits)
            with "2.IH"(4) [OF nd np ex Cons False] fc Cons show ?thesis by simp
          qed
        qed
      qed
    qed
  qed
qed

lemma lex_float_append:
  "lex_float m d e v = (x, []) \<Longrightarrow> \<not> float_char c0
   \<Longrightarrow> lex_float m d e (v @ c0 # r) = (x, c0 # r)"
proof (induction m d e v arbitrary: x rule: lex_float.induct)
  case (1 m d e)
  have "\<not> isdigit c0" "\<not> (c0 = CHR ''.'' \<and> \<not> d \<and> \<not> e)"
    "\<not> ((c0 = CHR ''e'' \<or> c0 = CHR ''E'') \<and> \<not> e \<and> m)"
    using "1.prems"(2) by (auto simp: float_char_def)
  from lex_float_stop [OF this] "1.prems"(1) show ?case by simp
next
  case (2 m d e c cs)
  have c0: "\<not> (c0 = CHR ''+'' \<or> c0 = CHR ''-'')"
    using "2.prems"(2) by (auto simp: float_char_def)
  have stop: "lex_float m' d' e' (c0 # r) = ([], c0 # r)" for m' d' e'
    using "2.prems"(2) by (intro lex_float_stop) (auto simp: float_char_def)
  show ?case
  proof (cases "isdigit c")
    case True
    from "2.prems"(1) [unfolded lex_float_digit [OF True]]
    obtain y where y: "lex_float True d e cs = (y, [])" and x: "x = c # y"
      by (auto split: prod.splits)
    from "2.IH"(1) [OF True y "2.prems"(2)] x show ?thesis
      by (simp add: lex_float_digit [OF True])
  next
    case nd: False
    show ?thesis
    proof (cases "c = CHR ''.'' \<and> \<not> d \<and> \<not> e")
      case True
      from "2.prems"(1) [unfolded lex_float_point [OF nd True]]
      obtain y where y: "lex_float m True e cs = (y, [])" and x: "x = c # y"
        by (auto split: prod.splits)
      from "2.IH"(2) [OF nd True y "2.prems"(2)] x show ?thesis
        by (simp add: lex_float_point [OF nd True])
    next
      case np: False
      show ?thesis
      proof (cases "(c = CHR ''e'' \<or> c = CHR ''E'') \<and> \<not> e \<and> m")
        case False
        from "2.prems"(1) [unfolded lex_float_stop [OF nd np False]] show ?thesis by simp
      next
        case ex: True
        show ?thesis
        proof (cases cs)
          case Nil
          from "2.prems"(1) [unfolded Nil lex_float_exp_end [OF nd np ex]]
          have x: "x = [CHR ''e'']" by simp
          show ?thesis
            using x Nil by (simp add: lex_float_exp_plain [OF nd np ex c0] stop)
        next
          case (Cons c' cs')
          show ?thesis
          proof (cases "c' = CHR ''+'' \<or> c' = CHR ''-''")
            case True
            from "2.prems"(1) [unfolded Cons lex_float_exp_sign [OF nd np ex True]]
            obtain y where y: "lex_float m d True cs' = (y, [])" and x: "x = CHR ''e'' # c' # y"
              by (auto split: prod.splits)
            from "2.IH"(3) [OF nd np ex Cons True y "2.prems"(2)] x Cons show ?thesis
              by (simp add: lex_float_exp_sign [OF nd np ex True])
          next
            case False
            from "2.prems"(1) [unfolded Cons lex_float_exp_plain [OF nd np ex False]]
            obtain y where y: "lex_float m d True (c' # cs') = (y, [])" and x: "x = CHR ''e'' # y"
              by (auto split: prod.splits)
            from "2.IH"(4) [OF nd np ex Cons False y "2.prems"(2)] x Cons show ?thesis
              by (simp add: lex_float_exp_plain [OF nd np ex False])
          qed
        qed
      qed
    qed
  qed
qed


text \<open>A stream with \<open>failbit\<close> clear.\<close>

abbreviation stream_at :: "string \<Rightarrow> string \<Rightarrow> bool \<Rightarrow> istream" where
  "stream_at d r e \<equiv> \<lparr>data = d, rest = r, eofbit = e, failbit = False\<rparr>"

lemma sentry_nonspace:
  "\<not> isspace c \<Longrightarrow> sentry (stream_at d (c # r) False) = (stream_at d (c # r) False, True)"
  by (simp add: sentry_def good_def)

lemma sentry_space:
  "\<not> isspace c \<Longrightarrow> sentry (stream_at d (CHR '' '' # c # r) False) = (stream_at d (c # r) False, True)"
  by (simp add: sentry_def good_def isspace_def)

lemma sentry_not_good: "\<not> good s \<Longrightarrow> sentry s = (s\<lparr>failbit := True\<rparr>, False)"
  by (simp add: sentry_def)

lemma digits_split:
  assumes "list_all isdigit ds" and "r = [] \<or> \<not> isdigit (hd r)"
  shows "takeWhile isdigit (ds @ r) = ds" and "dropWhile isdigit (ds @ r) = r"
proof -
  have a: "\<forall>x \<in> set ds. isdigit x" using assms(1) by (simp add: list_all_iff)
  have t: "takeWhile isdigit r = []" and d: "dropWhile isdigit r = r"
    using assms(2) by (cases r; simp)+
  show "takeWhile isdigit (ds @ r) = ds" using a t by (simp add: takeWhile_append2)
  show "dropWhile isdigit (ds @ r) = r" using a d by (simp add: dropWhile_append2)
qed

lemma digit_val_nonneg: "isdigit c \<Longrightarrow> 0 \<le> digit_val c"
  by (auto simp: isdigit_def digit_val_def)

lemma foldl_digits_nonneg:
  "list_all isdigit ds \<Longrightarrow> 0 \<le> a \<Longrightarrow> 0 \<le> foldl (\<lambda>a c. 10 * a + digit_val c) a ds"
proof (induction ds arbitrary: a)
  case Nil
  then show ?case by simp
next
  case (Cons c ds)
  from Cons.prems have "0 \<le> 10 * a + digit_val c"
    using digit_val_nonneg [of c] by simp
  with Cons show ?case by simp
qed

lemma digits_val_nonneg: "list_all isdigit ds \<Longrightarrow> 0 \<le> digits_val ds"
  unfolding digits_val_def by (rule foldl_digits_nonneg) simp_all

lemma not_digit_sign: "isdigit c \<Longrightarrow> c \<noteq> CHR ''-'' \<and> c \<noteq> CHR ''+''"
  by (auto simp: isdigit_def)

lemma sep_or_end_cases: "sep_or_end r \<Longrightarrow> r = [] \<or> (\<exists>r'. r = CHR '' '' # r')"
  by (cases r) (simp_all add: sep_or_end_def)

lemma sep_or_end_no_digit: "sep_or_end r \<Longrightarrow> r = [] \<or> \<not> isdigit (hd r)"
  by (cases r) (auto simp: sep_or_end_def isdigit_def)

lemma lex_int_digits:
  assumes "is_digits ds" and "r = [] \<or> \<not> isdigit (hd r)"
  shows "lex_int (ds @ r) = (False, ds, r)"
proof -
  from assms(1) obtain c ds' where ds: "ds = c # ds'" and c: "isdigit c"
    by (cases ds) (auto simp: is_digits_def)
  have "strip_sign (ds @ r) = (False, ds @ r)"
    using not_digit_sign [OF c] by (simp add: strip_sign_def ds)
  then show ?thesis
    using digits_split [OF _ assms(2), of ds] assms(1) by (simp add: lex_int_def is_digits_def)
qed

lemma lex_int_label:
  assumes "is_label t" and "r = [] \<or> \<not> isdigit (hd r)"
  shows "lex_int (t @ r) = (fst (strip_sign t), snd (strip_sign t), r)"
proof -
  from assms(1) have dg: "is_digits (snd (strip_sign t))" by (simp add: is_label_def)
  then obtain c t' where t: "t = c # t'" by (cases t) (auto simp: strip_sign_def is_digits_def)
  have "strip_sign (t @ r) = (fst (strip_sign t), snd (strip_sign t) @ r)"
    by (simp add: strip_sign_def t)
  then show ?thesis
    using digits_split [OF _ assms(2), of "snd (strip_sign t)"] dg
    by (simp add: lex_int_def is_digits_def)
qed

lemma label_first_nonspace: "is_label t \<Longrightarrow> \<exists>c t'. t = c # t' \<and> \<not> isspace c"
proof -
  assume "is_label t"
  then have dg: "is_digits (snd (strip_sign t))" by (simp add: is_label_def)
  then obtain c t' where t: "t = c # t'" by (cases t) (auto simp: strip_sign_def is_digits_def)
  have "\<not> isspace c"
  proof (cases "c = CHR ''-'' \<or> c = CHR ''+''")
    case True
    then show ?thesis by (auto simp: isspace_def)
  next
    case False
    with dg t have "isdigit c" by (auto simp: strip_sign_def is_digits_def)
    then show ?thesis by (rule isdigit_not_space)
  qed
  with t show ?thesis by blast
qed

lemma extract_int_label:
  assumes "is_label t" and "sep_or_end r"
  shows "extract_int (stream_at d (t @ r) False) = (stream_at d r (r = []), Some (label_val t))"
proof -
  from label_first_nonspace [OF assms(1)] obtain c t' where t: "t = c # t'" and c: "\<not> isspace c"
    by blast
  have s: "sentry (stream_at d (t @ r) False) = (stream_at d (t @ r) False, True)"
    using sentry_nonspace [OF c] by (simp add: t)
  have l: "lex_int (t @ r) = (fst (strip_sign t), snd (strip_sign t), r)"
    by (rule lex_int_label [OF assms(1) sep_or_end_no_digit [OF assms(2)]])
  have ne: "snd (strip_sign t) \<noteq> []" using assms(1) by (simp add: is_label_def is_digits_def)
  have rng: "- (2 ^ 31) \<le> label_val t" "label_val t \<le> 2 ^ 31 - 1"
    using assms(1) by (simp_all add: is_label_def)
  have lv: "label_val t = (if fst (strip_sign t) then - digits_val (snd (strip_sign t))
                          else digits_val (snd (strip_sign t)))"
    by (simp add: label_val_def split: prod.splits)
  show ?thesis
    using ne rng by (simp add: extract_int_def s l Let_def lv)
qed

lemma extract_int_index:
  assumes "is_digits i" and "digits_val i \<le> 2 ^ 31 - 1"
  shows "extract_int (stream_at d (CHR '' '' # i @ CHR '':'' # r) False)
           = (stream_at d (CHR '':'' # r) False, Some (digits_val i))"
proof -
  from assms(1) obtain c i' where i: "i = c # i'" and c: "isdigit c"
    by (cases i) (auto simp: is_digits_def)
  have s: "sentry (stream_at d (CHR '' '' # i @ CHR '':'' # r) False)
             = (stream_at d (i @ CHR '':'' # r) False, True)"
    using sentry_space [OF isdigit_not_space [OF c]] by (simp add: i)
  have l: "lex_int (i @ CHR '':'' # r) = (False, i, CHR '':'' # r)"
    by (rule lex_int_digits [OF assms(1)]) (simp add: isdigit_def)
  have nn: "0 \<le> digits_val i" using assms(1) by (simp add: is_digits_def digits_val_nonneg)
  have ne: "i \<noteq> []" using i by simp
  show ?thesis
    using ne nn assms(2) by (simp add: extract_int_def s l Let_def)
qed

lemma extract_size_t_index:
  assumes "is_digits i" and "digits_val i \<le> 2 ^ 31 - 1"
  shows "extract_size_t (stream_at d (CHR '' '' # i @ CHR '':'' # r) False)
           = (stream_at d (CHR '':'' # r) False, Some (nat (digits_val i)))"
proof -
  from assms(1) obtain c i' where i: "i = c # i'" and c: "isdigit c"
    by (cases i) (auto simp: is_digits_def)
  have s: "sentry (stream_at d (CHR '' '' # i @ CHR '':'' # r) False)
             = (stream_at d (i @ CHR '':'' # r) False, True)"
    using sentry_space [OF isdigit_not_space [OF c]] by (simp add: i)
  have l: "lex_int (i @ CHR '':'' # r) = (False, i, CHR '':'' # r)"
    by (rule lex_int_digits [OF assms(1)]) (simp add: isdigit_def)
  have ne: "i \<noteq> []" using i by simp
  have "\<not> 2 ^ 64 - 1 < digits_val i" using assms(2) by simp
  then show ?thesis
    using ne by (simp add: extract_size_t_def s l Let_def)
qed

lemma extract_char_colon:
  "extract_char (stream_at d (CHR '':'' # r) False) = (stream_at d r False, Some CHR '':'')"
proof -
  have "\<not> isspace CHR '':''" by (simp add: isspace_def)
  from sentry_nonspace [OF this] show ?thesis by (simp add: extract_char_def)
qed

lemma value_chars: "is_value v \<Longrightarrow> list_all float_char v"
proof -
  assume v: "is_value v"
  then obtain c v' where cv: "v = c # v'" by (cases v) (auto simp: is_value_def)
  show ?thesis
  proof (cases "c = CHR ''-'' \<or> c = CHR ''+''")
    case True
    with v cv have "snd (lex_float False False False v') = []"
      by (auto simp: is_value_def lex_double_def split: prod.splits)
    then have "list_all float_char v'"
      using lex_float_chars [of False False False v'] by (cases "lex_float False False False v'") simp
    with True cv show ?thesis by (auto simp: float_char_def)
  next
    case False
    with v cv have "snd (lex_float False False False v) = []"
      by (auto simp: is_value_def lex_double_def split: prod.splits)
    then show ?thesis
      using lex_float_chars [of False False False v] by (cases "lex_float False False False v") simp
  qed
qed

lemma lex_double_append:
  assumes "is_value v" and "sep_or_end r"
  shows "lex_double (v @ r) = (fst (lex_double v), r)"
proof -
  from assms(1) obtain c v' where cv: "v = c # v'" by (cases v) (auto simp: is_value_def)
  from assms(1) have e: "snd (lex_double v) = []" by (simp add: is_value_def)
  from sep_or_end_cases [OF assms(2)] show ?thesis
  proof
    assume "r = []"
    with e show ?thesis by (cases "lex_double v") simp
  next
    assume "\<exists>r'. r = CHR '' '' # r'"
    then obtain r' where r: "r = CHR '' '' # r'" by blast
    show ?thesis
    proof (cases "c = CHR ''-'' \<or> c = CHR ''+''")
      case True
      obtain x q where xq: "lex_float False False False v' = (x, q)"
        by (cases "lex_float False False False v'")
      with e True cv have q: "q = []" by (auto simp: lex_double_def)
      from lex_float_append [OF xq [unfolded q] space_not_float, of r'] xq q True cv r
      show ?thesis by (auto simp: lex_double_def)
    next
      case False
      obtain x q where xq: "lex_float False False False v = (x, q)"
        by (cases "lex_float False False False v")
      with e False cv have q: "q = []" by (auto simp: lex_double_def)
      from lex_float_append [OF xq [unfolded q] space_not_float, of r'] xq q False cv r
      show ?thesis by (auto simp: lex_double_def)
    qed
  qed
qed

lemma extract_double_value:
  assumes "is_value v" and "sep_or_end r"
  shows "extract_double (stream_at d (v @ r) False) = (stream_at d r (r = []), Some (value_val v))"
proof -
  from assms(1) obtain c v' where cv: "v = c # v'" by (cases v) (auto simp: is_value_def)
  from value_chars [OF assms(1)] cv have "\<not> isspace c"
    by (simp add: float_char_not_space)
  from sentry_nonspace [OF this]
  have s: "sentry (stream_at d (v @ r) False) = (stream_at d (v @ r) False, True)"
    by (simp add: cv)
  from assms(1) obtain x where x: "strtod (fst (lex_double v)) = Double x"
    by (auto simp: is_value_def split: converted.splits)
  then have vv: "value_val v = x" by (simp add: value_val_def)
  show ?thesis
    by (simp add: extract_double_def s lex_double_append [OF assms] Let_def x vv)
qed


text \<open>
  A record line is a label followed by pairs \<open>index:value\<close>, each preceded by one space.
  \<open>store\<close> writes pairs into a dense vector, in order.
\<close>

definition render_pairs :: "(string \<times> string) list \<Rightarrow> string" where
  "render_pairs ps = concat (map (\<lambda>(i, v). CHR '' '' # i @ CHR '':'' # v) ps)"

definition render_line :: "string \<Rightarrow> (string \<times> string) list \<Rightarrow> string" where
  "render_line lab ps = lab @ render_pairs ps"

definition pair_ok :: "nat \<Rightarrow> string \<times> string \<Rightarrow> bool" where
  "pair_ok n p = (is_index (fst p) \<and> digits_val (fst p) \<le> int n \<and> is_value (snd p))"

definition store :: "(string \<times> string) list \<Rightarrow> rat list \<Rightarrow> rat list" where
  "store ps vals = fold (\<lambda>p vs. vs[nat (digits_val (fst p) - 1) := value_val (snd p)]) ps vals"

lemma render_pairs_Nil [simp]: "render_pairs [] = []"
  by (simp add: render_pairs_def)

lemma render_pairs_Cons:
  "render_pairs ((i, v) # ps) = CHR '' '' # i @ CHR '':'' # v @ render_pairs ps"
  by (simp add: render_pairs_def)

lemma render_pairs_empty: "(render_pairs ps = []) = (ps = [])"
  by (cases ps) (auto simp: render_pairs_def)

lemma sep_or_end_pairs: "sep_or_end (render_pairs ps)"
  by (cases ps) (auto simp: render_pairs_def sep_or_end_def)

lemma length_store [simp]: "length (store ps vals) = length vals"
  unfolding store_def by (induction ps arbitrary: vals) simp_all

lemma store_Nil [simp]: "store [] vals = vals"
  by (simp add: store_def)

lemma store_Cons:
  "store (p # ps) vals = store ps (vals[nat (digits_val (fst p) - 1) := value_val (snd p)])"
  by (simp add: store_def)

lemma extract_int_not_good: "\<not> good s \<Longrightarrow> extract_int s = (s\<lparr>failbit := True\<rparr>, None)"
  by (simp add: extract_int_def sentry_not_good)

lemma extract_char_not_good: "\<not> good s \<Longrightarrow> extract_char s = (s\<lparr>failbit := True\<rparr>, None)"
  by (simp add: extract_char_def sentry_not_good)

lemma extract_double_not_good: "\<not> good s \<Longrightarrow> extract_double s = (s\<lparr>failbit := True\<rparr>, None)"
  by (simp add: extract_double_def sentry_not_good)

lemma extract_size_t_not_good: "\<not> good s \<Longrightarrow> extract_size_t s = (s\<lparr>failbit := True\<rparr>, None)"
  by (simp add: extract_size_t_def sentry_not_good)

lemma not_good_fail: "\<not> good (s\<lparr>failbit := True\<rparr>)"
  by (simp add: good_def)

lemma read_pairs_exhausted:
  "\<not> good iss \<Longrightarrow> 0 \<le> p - 1 \<Longrightarrow> p - 1 < int (length vals) \<Longrightarrow> vals ! nat (p - 1) = x
   \<Longrightarrow> read_pairs m iss (Some p) (Some x) vals = Inr vals"
proof (induction m arbitrary: iss)
  case 0
  then show ?case by simp
next
  case (Suc m)
  let ?s1 = "iss\<lparr>failbit := True\<rparr>"
  have e1: "extract_int iss = (?s1, None)" by (rule extract_int_not_good [OF Suc.prems(1)])
  have e2: "extract_char ?s1 = (?s1, None)"
    using extract_char_not_good [OF not_good_fail, of iss] by simp
  have e3: "extract_double ?s1 = (?s1, None)"
    using extract_double_not_good [OF not_good_fail, of iss] by simp
  have "read_pairs m ?s1 (Some p) (Some x) vals = Inr vals"
    by (rule Suc.IH [OF not_good_fail Suc.prems(2-4)])
  moreover have "vals[nat (p - 1) := x] = vals"
    using Suc.prems(4) list_update_id [of vals "nat (p - 1)"] by simp
  ultimately show ?case
    using Suc.prems(2,3) by (simp add: e1 e2 e3 assigned_def)
qed

lemma read_pairs_unassigned:
  "\<not> good iss \<Longrightarrow> read_pairs (Suc m) iss None vl vals = Inl IndeterminateRead"
proof -
  assume ng: "\<not> good iss"
  let ?s1 = "iss\<lparr>failbit := True\<rparr>"
  have e1: "extract_int iss = (?s1, None)" by (rule extract_int_not_good [OF ng])
  have e2: "extract_char ?s1 = (?s1, None)"
    using extract_char_not_good [OF not_good_fail, of iss] by simp
  have e3: "extract_double ?s1 = (?s1, None)"
    using extract_double_not_good [OF not_good_fail, of iss] by simp
  show ?thesis by (simp add: e1 e2 e3 assigned_def split: option.splits)
qed

lemma index_parses: "is_index i \<Longrightarrow> is_digits i \<and> digits_val i \<le> 2 ^ 31 - 1"
  by (simp add: is_index_def)

lemma pair_step:
  assumes "is_digits i \<and> digits_val i \<le> 2 ^ 31 - 1" and "is_value v"
  shows "extract_int (stream_at d (render_pairs ((i, v) # ps)) False)
           = (stream_at d (CHR '':'' # v @ render_pairs ps) False, Some (digits_val i))"
    and "extract_size_t (stream_at d (render_pairs ((i, v) # ps)) False)
           = (stream_at d (CHR '':'' # v @ render_pairs ps) False, Some (nat (digits_val i)))"
    and "extract_double (stream_at d (v @ render_pairs ps) False)
           = (stream_at d (render_pairs ps) (ps = []), Some (value_val v))"
proof -
  from assms(1) have dg: "is_digits i" and ub: "digits_val i \<le> 2 ^ 31 - 1"
    by simp_all
  show "extract_int (stream_at d (render_pairs ((i, v) # ps)) False)
           = (stream_at d (CHR '':'' # v @ render_pairs ps) False, Some (digits_val i))"
    using extract_int_index [OF dg ub] by (simp add: render_pairs_Cons)
  show "extract_size_t (stream_at d (render_pairs ((i, v) # ps)) False)
           = (stream_at d (CHR '':'' # v @ render_pairs ps) False, Some (nat (digits_val i)))"
    using extract_size_t_index [OF dg ub] by (simp add: render_pairs_Cons)
  show "extract_double (stream_at d (v @ render_pairs ps) False)
           = (stream_at d (render_pairs ps) (ps = []), Some (value_val v))"
    using extract_double_value [OF assms(2) sep_or_end_pairs] by (simp add: render_pairs_empty)
qed

lemma read_pairs_valid:
  "ps \<noteq> [] \<Longrightarrow> list_all (pair_ok (length vals)) ps
   \<Longrightarrow> read_pairs m (stream_at d (render_pairs ps) False) pos vl vals
         = Inr (store (take m ps) vals)"
proof (induction ps arbitrary: m pos vl vals)
  case Nil
  then show ?case by simp
next
  case (Cons p ps)
  obtain i v where p: "p = (i, v)" by (cases p)
  from Cons.prems(2) p have ok: "is_index i" "is_value v" "digits_val i \<le> int (length vals)"
    and rest_ok: "list_all (pair_ok (length vals)) ps"
    by (simp_all add: pair_ok_def list_all_iff)
  show ?case
  proof (cases m)
    case 0
    then show ?thesis by simp
  next
    case (Suc m')
    let ?iv = "digits_val i" and ?xv = "value_val v"
    let ?vals = "vals[nat (?iv - 1) := ?xv]"
    have lo: "0 \<le> ?iv - 1" using ok(1) by (simp add: is_index_def)
    have hi: "?iv - 1 < int (length vals)" using ok(3) by simp
    have step: "read_pairs (Suc m') (stream_at d (render_pairs ((i, v) # ps)) False) pos vl vals
                  = read_pairs m' (stream_at d (render_pairs ps) (ps = [])) (Some ?iv) (Some ?xv) ?vals"
      using lo hi
      by (simp add: pair_step [OF index_parses [OF ok(1)] ok(2)] extract_char_colon assigned_def)
    have "read_pairs m' (stream_at d (render_pairs ps) (ps = [])) (Some ?iv) (Some ?xv) ?vals
            = Inr (store (take m' ps) ?vals)"
    proof (cases "ps = []")
      case True
      have "read_pairs m' (stream_at d [] True) (Some ?iv) (Some ?xv) ?vals = Inr ?vals"
        using lo hi by (intro read_pairs_exhausted) (simp_all add: good_def)
      with True show ?thesis by simp
    next
      case False
      with Cons.IH [OF False, of ?vals m' "Some ?iv" "Some ?xv"] rest_ok show ?thesis by simp
    qed
    with step show ?thesis by (simp add: Suc p store_Cons)
  qed
qed

lemma scan_pairs_valid:
  "list_all (\<lambda>p. is_index (fst p) \<and> is_value (snd p)) ps
   \<Longrightarrow> scan_pairs (length ps) (stream_at d (render_pairs ps) (ps = [])) pos sh
         = Inr (fold (\<lambda>p s. max s (nat (digits_val (fst p)))) ps sh)"
proof (induction ps arbitrary: pos sh)
  case Nil
  then show ?case by simp
next
  case (Cons p ps)
  obtain i v where p: "p = (i, v)" by (cases p)
  from Cons.prems p have ok: "is_index i" "is_value v"
    and rest_ok: "list_all (\<lambda>p. is_index (fst p) \<and> is_value (snd p)) ps"
    by simp_all
  have "(if sh < nat (digits_val i) then nat (digits_val i) else sh) = max sh (nat (digits_val i))"
    by simp
  then show ?case
    using Cons.IH [OF rest_ok]
    by (simp add: p pair_step [OF index_parses [OF ok(1)] ok(2)] extract_char_colon assigned_def
          del: max.absorb1 max.absorb2 max.absorb3 max.absorb4)
qed


definition line_char :: "char \<Rightarrow> bool" where
  "line_char c = (float_char c \<or> c = CHR '' '' \<or> c = CHR '':'')"

definition is_record :: "string \<Rightarrow> (string \<times> string) list \<Rightarrow> bool" where
  "is_record lab ps = (is_label lab \<and> list_all (\<lambda>p. is_index (fst p) \<and> is_value (snd p)) ps)"

lemma getline_line:
  assumes "list_all (\<lambda>c. c \<noteq> CHR 0x0A) line"
  shows "getline (stream_at d (line @ CHR 0x0A # nxt) False) l0 = (stream_at d nxt False, line)"
proof -
  have a: "\<forall>c \<in> set line. c \<noteq> CHR 0x0A" using assms by (simp add: list_all_iff)
  have t: "takeWhile (\<lambda>c. c \<noteq> CHR 0x0A) (line @ CHR 0x0A # nxt) = line"
    using a by (simp add: takeWhile_append2)
  have dr: "dropWhile (\<lambda>c. c \<noteq> CHR 0x0A) (line @ CHR 0x0A # nxt) = CHR 0x0A # nxt"
    using a by (simp add: dropWhile_append2)
  show ?thesis by (simp add: getline_def good_def t dr)
qed

lemma getline_end:
  "getline (stream_at d [] False) l0 = (\<lparr>data = d, rest = [], eofbit = True, failbit = True\<rparr>, [])"
  by (simp add: getline_def good_def)

lemma trim_empty_iff: "(trim s = []) = list_all isspace s"
proof -
  have "(trim s = []) = (dropWhile isspace (rev (dropWhile isspace s)) = [])"
    by (simp add: trim_def)
  also have "\<dots> = (\<forall>c \<in> set (dropWhile isspace s). isspace c)"
    by (simp add: dropWhile_eq_Nil_conv)
  also have "\<dots> = (dropWhile isspace s = [])"
  proof
    assume a: "\<forall>c \<in> set (dropWhile isspace s). isspace c"
    show "dropWhile isspace s = []"
    proof (cases "dropWhile isspace s")
      case Nil
      then show ?thesis .
    next
      case (Cons c cs)
      then have "\<not> isspace c" using hd_dropWhile [of isspace s] by auto
      with a Cons show ?thesis by simp
    qed
  qed (auto dest: set_dropWhileD)
  also have "\<dots> = list_all isspace s"
    by (simp add: dropWhile_eq_Nil_conv list_all_iff)
  finally show ?thesis .
qed

lemma trim_id:
  assumes "s \<noteq> []" and "\<not> isspace (hd s)" and "\<not> isspace (last s)"
  shows "trim s = s"
proof -
  have a: "dropWhile isspace s = s" using assms(1,2) by (cases s) simp_all
  have "rev s \<noteq> []" and "\<not> isspace (hd (rev s))"
    using assms(1,3) by (simp_all add: hd_rev)
  then have "dropWhile isspace (rev s) = rev s" by (cases "rev s") simp_all
  with a show ?thesis by (simp add: trim_def)
qed

lemma digits_float: "list_all isdigit ds \<Longrightarrow> list_all float_char ds"
  by (simp add: list_all_iff float_char_def)

lemma label_chars: "is_label t \<Longrightarrow> list_all float_char t"
proof -
  assume "is_label t"
  then have dg: "list_all isdigit (snd (strip_sign t))" by (simp add: is_label_def is_digits_def)
  show ?thesis
  proof (cases t)
    case Nil
    then show ?thesis by simp
  next
    case (Cons c t')
    show ?thesis
    proof (cases "c = CHR ''-'' \<or> c = CHR ''+''")
      case True
      with dg Cons have "list_all isdigit t'" by (auto simp: strip_sign_def)
      with True Cons show ?thesis by (auto simp: digits_float float_char_def)
    next
      case False
      with dg Cons have "list_all isdigit t" by (auto simp: strip_sign_def)
      then show ?thesis by (rule digits_float)
    qed
  qed
qed

lemma pairs_chars:
  "list_all (\<lambda>p. is_index (fst p) \<and> is_value (snd p)) ps \<Longrightarrow> list_all line_char (render_pairs ps)"
proof (induction ps)
  case Nil
  then show ?case by simp
next
  case (Cons p ps)
  obtain i v where p: "p = (i, v)" by (cases p)
  from Cons.prems p have "list_all float_char i" "list_all float_char v"
    by (simp_all add: is_index_def is_digits_def digits_float value_chars)
  then have "list_all line_char i" "list_all line_char v"
    by (simp_all add: list_all_iff line_char_def)
  moreover have "line_char CHR '' ''" "line_char CHR '':''" by (simp_all add: line_char_def)
  ultimately show ?case using Cons p by (simp add: render_pairs_Cons)
qed

lemma record_chars: "is_record lab ps \<Longrightarrow> list_all line_char (render_line lab ps)"
proof -
  assume r: "is_record lab ps"
  then have "list_all float_char lab" by (simp add: is_record_def label_chars)
  then have "list_all line_char lab" by (simp add: list_all_iff line_char_def)
  with r show ?thesis by (simp add: render_line_def is_record_def pairs_chars)
qed

lemma line_char_not_newline: "line_char c \<Longrightarrow> c \<noteq> CHR 0x0A"
  by (auto simp: line_char_def float_char_def isdigit_def)

lemma record_no_newline: "is_record lab ps \<Longrightarrow> list_all (\<lambda>c. c \<noteq> CHR 0x0A) (render_line lab ps)"
  using record_chars [of lab ps] by (auto simp: list_all_iff line_char_not_newline)

lemma float_last_nonspace: "list_all float_char t \<Longrightarrow> t \<noteq> [] \<Longrightarrow> \<not> isspace (last t)"
  by (simp add: list_all_iff float_char_not_space)

lemma pairs_last_nonspace:
  "list_all (\<lambda>p. is_index (fst p) \<and> is_value (snd p)) ps \<Longrightarrow> ps \<noteq> []
   \<Longrightarrow> \<not> isspace (last (render_pairs ps))"
proof (induction ps)
  case Nil
  then show ?case by simp
next
  case (Cons p ps)
  obtain i v where p: "p = (i, v)" by (cases p)
  from Cons.prems p have v: "is_value v" by simp
  then have vne: "v \<noteq> []" by (simp add: is_value_def)
  show ?case
  proof (cases "ps = []")
    case True
    with p vne float_last_nonspace [OF value_chars [OF v] vne] show ?thesis
      by (simp add: render_pairs_Cons)
  next
    case False
    then have "render_pairs ps \<noteq> []" by (simp add: render_pairs_empty)
    with Cons False p show ?thesis by (simp add: render_pairs_Cons)
  qed
qed

lemma record_trim: "is_record lab ps \<Longrightarrow> trim (render_line lab ps) = render_line lab ps"
proof -
  assume r: "is_record lab ps"
  then have lab: "is_label lab" by (simp add: is_record_def)
  from label_first_nonspace [OF lab] obtain c t' where t: "lab = c # t'" and c: "\<not> isspace c"
    by blast
  have ne: "render_line lab ps \<noteq> []" and h: "\<not> isspace (hd (render_line lab ps))"
    using t c by (simp_all add: render_line_def)
  have "\<not> isspace (last (render_line lab ps))"
  proof (cases "ps = []")
    case True
    with float_last_nonspace [OF label_chars [OF lab]] t show ?thesis
      by (simp add: render_line_def)
  next
    case False
    then have "render_pairs ps \<noteq> []" by (simp add: render_pairs_empty)
    with pairs_last_nonspace [OF _ False] r show ?thesis
      by (simp add: render_line_def is_record_def)
  qed
  with ne h show ?thesis by (rule trim_id)
qed

lemma filter_colon_float: "list_all float_char t \<Longrightarrow> filter is_colon t = []"
  by (simp add: list_all_iff float_char_not_colon)

lemma record_colons: "is_record lab ps \<Longrightarrow> length (filter is_colon (render_line lab ps)) = length ps"
proof -
  assume r: "is_record lab ps"
  have "list_all (\<lambda>p. is_index (fst p) \<and> is_value (snd p)) ps
        \<Longrightarrow> length (filter is_colon (render_pairs ps)) = length ps"
  proof (induction ps)
    case Nil
    then show ?case by simp
  next
    case (Cons p ps)
    obtain i v where p: "p = (i, v)" by (cases p)
    from Cons.prems p have "filter is_colon i = []" "filter is_colon v = []"
      by (simp_all add: is_index_def is_digits_def digits_float value_chars filter_colon_float)
    moreover have "is_colon CHR '':''" "\<not> is_colon CHR '' ''" by (simp_all add: is_colon_def)
    ultimately show ?case using Cons p by (simp add: render_pairs_Cons)
  qed
  with r show ?thesis
    by (simp add: render_line_def is_record_def label_chars filter_colon_float)
qed

lemma next_line_record:
  assumes "is_record lab ps"
  shows "next_line (stream_at d (render_line lab ps @ CHR 0x0A # nxt) False)
           = (stream_at d nxt False, render_line lab ps)"
proof -
  have g: "getline (stream_at d (render_line lab ps @ CHR 0x0A # nxt) False) []
             = (stream_at d nxt False, render_line lab ps)"
    by (rule getline_line [OF record_no_newline [OF assms]])
  have ne: "render_line lab ps \<noteq> []"
    using label_first_nonspace [of lab] assms by (auto simp: render_line_def is_record_def)
  show ?thesis
    by (subst next_line.simps) (simp add: good_def g record_trim [OF assms] ne)
qed

lemma next_line_blank:
  assumes "list_all (\<lambda>c. isspace c \<and> c \<noteq> CHR 0x0A) w"
  shows "next_line (stream_at d (w @ CHR 0x0A # nxt) False) = next_line (stream_at d nxt False)"
proof -
  have nl: "list_all (\<lambda>c. c \<noteq> CHR 0x0A) w" and sp: "list_all isspace w"
    using assms by (simp_all add: list_all_iff)
  have g: "getline (stream_at d (w @ CHR 0x0A # nxt) False) [] = (stream_at d nxt False, w)"
    by (rule getline_line [OF nl])
  have t: "trim w = []" using sp by (simp add: trim_empty_iff)
  show ?thesis
    by (subst next_line.simps) (simp add: good_def g t)
qed

lemma next_line_end:
  "next_line (stream_at d [] False) = (\<lparr>data = d, rest = [], eofbit = True, failbit = True\<rparr>, [])"
proof -
  have "next_line \<lparr>data = d, rest = [], eofbit = True, failbit = True\<rparr>
          = (\<lparr>data = d, rest = [], eofbit = True, failbit = True\<rparr>, [])"
    by (subst next_line.simps) (simp add: good_def)
  then show ?thesis
    by (subst next_line.simps) (simp add: good_def getline_end trim_def)
qed

lemma label_then_pairs:
  assumes "is_record lab ps"
  shows "extract_int (stream_on (render_line lab ps))
           = (stream_at (render_line lab ps) (render_pairs ps) (ps = []), Some (label_val lab))"
proof -
  from assms have lab: "is_label lab" by (simp add: is_record_def)
  from extract_int_label [OF lab sep_or_end_pairs, of "render_line lab ps" ps]
  show ?thesis by (simp add: stream_on_def render_line_def render_pairs_empty)
qed


lemma read_pairs_out_of_bounds:
  assumes "is_digits i \<and> digits_val i \<le> 2 ^ 31 - 1" and "is_value v"
    and "digits_val i < 1 \<or> int (length vals) < digits_val i"
  shows "read_pairs (Suc m) (stream_at d (render_pairs ((i, v) # ps)) False) pos vl vals
           = Inl OutOfBounds"
  using assms(3) by (auto simp: pair_step [OF assms(1,2)] extract_char_colon assigned_def)

lemma read'_record:
  assumes "is_record lab ps"
    and "m_file f = stream_at d (render_line lab ps @ CHR 0x0A # nxt) False"
  shows "read' f label vals =
           (case read_pairs (m_shape f) (stream_at (render_line lab ps) (render_pairs ps) (ps = []))
                   None None (replicate (length vals) 0) of
              Inl e \<Rightarrow> Inl e
            | Inr vals' \<Rightarrow> Inr (True, f\<lparr>m_file := stream_at d nxt False\<rparr>, label_val lab, vals'))"
proof -
  have ne: "render_line lab ps \<noteq> []"
    using label_first_nonspace [of lab] assms(1) by (auto simp: render_line_def is_record_def)
  show ?thesis
    by (simp add: read'_def assms(2) good_def next_line_record [OF assms(1)] ne
          label_then_pairs [OF assms(1)] split: sum.splits)
qed

text \<open>
  End of stream: the stream is not good, or nothing but white space is left in it.
\<close>

definition at_end :: "svmfile \<Rightarrow> bool" where
  "at_end f = (\<not> good (m_file f) \<or> list_all isspace (rest (m_file f)))"

lemma next_line_not_good: "\<not> good s \<Longrightarrow> next_line s = (s, [])"
  by (subst next_line.simps) simp

lemma next_line_empty_iff:
  "(snd (next_line s) = []) = (\<not> good s \<or> list_all isspace (rest s))"
proof (induction s rule: next_line.induct)
  case (1 s)
  show ?case
  proof (cases "good s")
    case False
    then show ?thesis by (simp add: next_line_not_good)
  next
    case g: True
    let ?l = "takeWhile (\<lambda>c. c \<noteq> CHR 0x0A) (rest s)"
    let ?r = "dropWhile (\<lambda>c. c \<noteq> CHR 0x0A) (rest s)"
    have split: "rest s = ?l @ ?r" by simp
    show ?thesis
    proof (cases ?r)
      case Nil
      let ?s' = "s\<lparr>rest := [], eofbit := True, failbit := (?l = [])\<rparr>"
      have gl: "getline s [] = (?s', ?l)" unfolding getline_def Let_def Nil using g by simp
      have ng: "\<not> good ?s'" by (simp add: good_def)
      have "snd (next_line s) = trim ?l"
        using g gl next_line_not_good [OF ng] by (subst next_line.simps) (simp add: Let_def)
      moreover have "rest s = ?l" using split Nil by simp
      ultimately show ?thesis using g by (simp add: trim_empty_iff)
    next
      case (Cons c r)
      then have c: "c = CHR 0x0A" using hd_dropWhile [of "\<lambda>c. c \<noteq> CHR 0x0A" "rest s"] by auto
      let ?s' = "s\<lparr>rest := r\<rparr>"
      have gl: "getline s [] = (?s', ?l)" unfolding getline_def Let_def Cons using g by simp
      have g': "good ?s'" using g by (simp add: good_def)
      have "isspace CHR 0x0A" by (simp add: isspace_def)
      moreover have "rest s = ?l @ CHR 0x0A # r" using split Cons c by simp
      ultimately have sp: "list_all isspace (rest s) = (list_all isspace ?l \<and> list_all isspace r)"
        by (metis list_all_append list.pred_inject(2))
      show ?thesis
      proof (cases "trim ?l \<noteq> []")
        case True
        then have "snd (next_line s) = trim ?l"
          using g gl by (subst next_line.simps) simp
        with True g sp show ?thesis by (simp add: trim_empty_iff)
      next
        case False
        then have "next_line s = next_line ?s'"
          using g gl by (subst next_line.simps) simp
        moreover have "(snd (next_line ?s') = []) = (\<not> good ?s' \<or> list_all isspace (rest ?s'))"
          using g gl False by (intro "1.IH") simp_all
        ultimately show ?thesis using g g' sp False by (simp add: trim_empty_iff)
      qed
    qed
  qed
qed

lemma read_pairs_error:
  "read_pairs m iss pos vl vals = Inl e \<Longrightarrow> e = OutOfBounds \<or> e = IndeterminateRead"
proof (induction m arbitrary: iss pos vl vals)
  case 0
  then show ?case by simp
next
  case (Suc m)
  then show ?case
    by (auto simp: Let_def split: prod.splits option.splits if_splits)
qed

lemma read'_cases:
  "read' f label vals =
     (if at_end f then Inr (False, f\<lparr>m_file := fst (next_line (m_file f))\<rparr>, label, vals)
      else
        (case extract_int (stream_on (snd (next_line (m_file f)))) of (iss, l) \<Rightarrow>
           (case read_pairs (m_shape f) iss None None (replicate (length vals) 0) of
              Inl e \<Rightarrow> Inl e
            | Inr vals' \<Rightarrow>
                Inr (True, f\<lparr>m_file := fst (next_line (m_file f))\<rparr>,
                     (case l of None \<Rightarrow> label | Some v \<Rightarrow> v), vals'))))"
proof (cases "good (m_file f)")
  case False
  then show ?thesis by (simp add: read'_def at_end_def next_line_not_good)
next
  case True
  obtain s' line where nl: "next_line (m_file f) = (s', line)" by (cases "next_line (m_file f)")
  have "(line = []) = at_end f"
    using next_line_empty_iff [of "m_file f"] nl True by (simp add: at_end_def)
  then show ?thesis using True nl by (simp add: read'_def split: sum.splits prod.splits)
qed

section \<open>The bounds of the writes of \<open>read_\<close>\<close>

definition line1_pairs :: "(string \<times> string) list" where
  "line1_pairs = [(''1'', ''0.5''), (''3'', ''2.0'')]"

definition line2_pairs :: "(string \<times> string) list" where
  "line2_pairs = [(''2'', ''1.0'')]"

definition label_only :: string where
  "label_only = ''1 1:0.5'' @ [CHR 0x0A] @ ''2'' @ [CHR 0x0A]"

text \<open>
  Claim C9, as it stands, fails on the first line of the scenario of claim C1: the line
  has two pairs, the shape is 3, and all three writes are in bounds.  The third
  extraction fails and leaves \<open>pos\<close> and \<open>value\<close> as the second pair set them.
\<close>

theorem C9_counterexample:
  "length (filter is_colon ''1 1:0.5 3:2.0'') = 2
   \<and> m_shape (opened two_lines 3 2 two_lines) = 3
   \<and> read' (opened two_lines 3 2 two_lines) 0 [0, 0, 0]
       = Inr (True, opened two_lines 3 2 (''-1 2:1.0'' @ [CHR 0x0A]), 1, [1 / 2, 0, 2])"
proof -
  have "length (filter is_colon ''1 1:0.5 3:2.0'') = 2" by code_simp
  moreover have "m_shape (opened two_lines 3 2 two_lines) = 3" by (simp add: opened_def)
  moreover have "read' (opened two_lines 3 2 two_lines) 0 [0, 0, 0]
       = Inr (True, opened two_lines 3 2 (''-1 2:1.0'' @ [CHR 0x0A]), 1, [1 / 2, 0, 2])"
    by code_simp
  ultimately show ?thesis by blast
qed

text \<open>
  Claim C9, amended.  \<open>read_\<close> runs its extraction \<open>shape\<close> times on a record line,
  whatever the number of pairs on it.  On a well-formed line (a label, then pairs of an
  index and a value within the range of \<open>double\<close>) the runs beyond the last pair find the
  stream at its end, where the extraction does not touch \<open>pos\<close> and \<open>value\<close>.  So on
  such a line with at least one pair whose indices are all between 1 and the length of
  the output vector, every write is in bounds: the call returns true with the first
  \<open>shape\<close> pairs stored (the last pair is stored again when the line has fewer).  On a
  line without pairs and with \<open>shape > 0\<close> the write uses \<open>pos\<close> and \<open>value\<close> before any
  assignment, and a first pair whose index exceeds the length of the vector is written
  out of bounds.
\<close>

theorem C9_write_bounds:
  assumes "is_record lab ps"
    and "m_file f = stream_at d (render_line lab ps @ CHR 0x0A # nxt) False"
  shows "(ps \<noteq> [] \<and> list_all (pair_ok (length vals)) ps \<longrightarrow>
            read' f label vals =
              Inr (True, f\<lparr>m_file := stream_at d nxt False\<rparr>, label_val lab,
                   store (take (m_shape f) ps) (replicate (length vals) 0)))
       \<and> (ps = [] \<and> 0 < m_shape f \<longrightarrow> read' f label vals = Inl IndeterminateRead)
       \<and> (0 < m_shape f \<and> (\<exists>i v ps'. ps = (i, v) # ps' \<and> int (length vals) < digits_val i) \<longrightarrow>
            read' f label vals = Inl OutOfBounds)"
proof (intro conjI impI)
  assume a: "ps \<noteq> [] \<and> list_all (pair_ok (length vals)) ps"
  then have "read_pairs (m_shape f) (stream_at (render_line lab ps) (render_pairs ps) False)
               None None (replicate (length vals) 0)
             = Inr (store (take (m_shape f) ps) (replicate (length vals) 0))"
    by (intro read_pairs_valid) simp_all
  with a show "read' f label vals =
      Inr (True, f\<lparr>m_file := stream_at d nxt False\<rparr>, label_val lab,
           store (take (m_shape f) ps) (replicate (length vals) 0))"
    by (simp add: read'_record [OF assms])
next
  assume a: "ps = [] \<and> 0 < m_shape f"
  then obtain m where m: "m_shape f = Suc m" by (cases "m_shape f") simp_all
  have "read_pairs (Suc m) (stream_at (render_line lab ps) [] True) None None
          (replicate (length vals) 0) = Inl IndeterminateRead"
    by (rule read_pairs_unassigned) (simp add: good_def)
  with a m show "read' f label vals = Inl IndeterminateRead"
    by (simp add: read'_record [OF assms])
next
  assume a: "0 < m_shape f \<and> (\<exists>i v ps'. ps = (i, v) # ps' \<and> int (length vals) < digits_val i)"
  then obtain m where m: "m_shape f = Suc m" by (cases "m_shape f") simp_all
  from a obtain i v ps' where ps: "ps = (i, v) # ps'" and big: "int (length vals) < digits_val i"
    by blast
  from assms(1) ps have i: "is_index i" and v: "is_value v" by (simp_all add: is_record_def)
  have "read_pairs (Suc m) (stream_at (render_line lab ps) (render_pairs ((i, v) # ps')) False)
          None None (replicate (length vals) 0) = Inl OutOfBounds"
    using big by (intro read_pairs_out_of_bounds [OF index_parses [OF i] v]) simp
  with ps m show "read' f label vals = Inl OutOfBounds"
    by (simp add: read'_record [OF assms])
qed

lemma record_line1: "is_record ''1'' line1_pairs"
  by code_simp

lemma record_line2: "is_record ''-1'' line2_pairs"
  by code_simp

lemma record_label_only: "is_record ''2'' []"
  by code_simp

lemma file_line1:
  "m_file (opened two_lines 3 2 two_lines)
     = stream_at two_lines (render_line ''1'' line1_pairs @ CHR 0x0A # (''-1 2:1.0'' @ [CHR 0x0A])) False"
  by code_simp

lemma file_line2:
  "m_file (opened two_lines 3 2 (''-1 2:1.0'' @ [CHR 0x0A]))
     = stream_at two_lines (render_line ''-1'' line2_pairs @ CHR 0x0A # []) False"
  by code_simp

lemma file_label_only:
  "m_file (opened label_only 1 2 (''2'' @ [CHR 0x0A]))
     = stream_at label_only (render_line ''2'' [] @ CHR 0x0A # []) False"
  by code_simp

theorem C9_write_bounds_witness:
  "is_record ''1'' line1_pairs
   \<and> list_all (pair_ok (length [0, 0, 0 :: rat])) line1_pairs
   \<and> length line1_pairs < m_shape (opened two_lines 3 2 two_lines)
   \<and> read' (opened two_lines 3 2 two_lines) 0 [0, 0, 0]
       = Inr (True, opened two_lines 3 2 (''-1 2:1.0'' @ [CHR 0x0A]), 1, [1 / 2, 0, 2])
   \<and> SVMFile [''data.svm'' \<mapsto> label_only] ''data.svm'' = Inr (opened label_only 1 2 label_only)
   \<and> read' (opened label_only 1 2 (''2'' @ [CHR 0x0A])) 0 [0] = Inl IndeterminateRead
   \<and> read' (opened two_lines 3 2 (''-1 2:1.0'' @ [CHR 0x0A])) 0 [0] = Inl OutOfBounds"
proof -
  have ok: "list_all (pair_ok (length [0, 0, 0 :: rat])) line1_pairs" by code_simp
  have few: "length line1_pairs < m_shape (opened two_lines 3 2 two_lines)" by code_simp
  have st: "store (take 3 line1_pairs) (replicate (length [0, 0, 0 :: rat]) 0) = [1 / 2, 0, 2]"
    by code_simp
  have lv: "label_val ''1'' = 1" by code_simp
  have sh: "m_shape (opened two_lines 3 2 two_lines) = 3" by (simp add: opened_def)
  have ne: "line1_pairs \<noteq> []" by (simp add: line1_pairs_def)
  have op: "SVMFile [''data.svm'' \<mapsto> label_only] ''data.svm'' = Inr (opened label_only 1 2 label_only)"
    by code_simp
  have upd: "(opened two_lines 3 2 two_lines)\<lparr>m_file := stream_at two_lines (''-1 2:1.0'' @ [CHR 0x0A]) False\<rparr>
               = opened two_lines 3 2 (''-1 2:1.0'' @ [CHR 0x0A])"
    by (simp add: opened_def)
  have r1: "read' (opened two_lines 3 2 two_lines) 0 [0, 0, 0]
       = Inr (True, opened two_lines 3 2 (''-1 2:1.0'' @ [CHR 0x0A]), 1, [1 / 2, 0, 2])"
  proof -
    from C9_write_bounds [OF record_line1 file_line1, of "[0, 0, 0]" 0] ne ok
    have "read' (opened two_lines 3 2 two_lines) 0 [0, 0, 0] =
        Inr (True,
             (opened two_lines 3 2 two_lines)\<lparr>m_file := stream_at two_lines (''-1 2:1.0'' @ [CHR 0x0A]) False\<rparr>,
             label_val ''1'',
             store (take (m_shape (opened two_lines 3 2 two_lines)) line1_pairs)
               (replicate (length [0, 0, 0 :: rat]) 0))"
      by blast
    then show ?thesis by (simp only: sh st lv upd)
  qed
  have r2: "read' (opened label_only 1 2 (''2'' @ [CHR 0x0A])) 0 [0] = Inl IndeterminateRead"
    using C9_write_bounds [OF record_label_only file_label_only, of "[0]" 0]
    by (simp add: opened_def)
  have r3: "read' (opened two_lines 3 2 (''-1 2:1.0'' @ [CHR 0x0A])) 0 [0] = Inl OutOfBounds"
  proof -
    have "int (length [0 :: rat]) < digits_val ''2''" by code_simp
    then have "\<exists>i v ps'. line2_pairs = (i, v) # ps' \<and> int (length [0 :: rat]) < digits_val i"
      by (simp add: line2_pairs_def)
    then show ?thesis
      using C9_write_bounds [OF record_line2 file_line2, of "[0]" 0]
      by (simp add: opened_def)
  qed
  from record_line1 ok few r1 op r2 r3 show ?thesis by blast
qed

section \<open>The contract of \<open>read\<close>\<close>

text \<open>
  What \<open>read\<close> can do.  It raises the shape error exactly when the length of the output
  vector differs from the shape.  With the right length it returns false, leaving the
  output variables alone, when the stream is at its end; otherwise it returns true, or
  \<open>read_\<close> writes outside the vector or uses an unassigned variable, which is undefined
  behaviour and not an exception.
\<close>

lemma read_outcomes:
  "(length vals \<noteq> m_shape f \<longrightarrow> read f label vals = Inl ShapeError)
   \<and> (length vals = m_shape f \<longrightarrow>
        read f label vals \<noteq> Inl ShapeError
        \<and> (at_end f \<longrightarrow>
             read f label vals = Inr (False, f\<lparr>m_file := fst (next_line (m_file f))\<rparr>, label, vals))
        \<and> (\<not> at_end f \<longrightarrow>
             (\<exists>f' label' vals'. read f label vals = Inr (True, f', label', vals'))
             \<or> read f label vals = Inl OutOfBounds
             \<or> read f label vals = Inl IndeterminateRead))"
proof (intro conjI impI)
  assume "length vals \<noteq> m_shape f"
  then show "read f label vals = Inl ShapeError" by (simp add: read_def)
next
  assume len: "length vals = m_shape f"
  then have r: "read f label vals = read' f label vals" by (simp add: read_def)
  show "read f label vals \<noteq> Inl ShapeError"
    unfolding r read'_cases
    by (auto split: prod.splits sum.splits dest: read_pairs_error)
  show "read f label vals = Inr (False, f\<lparr>m_file := fst (next_line (m_file f))\<rparr>, label, vals)"
    if "at_end f"
    using that unfolding r read'_cases by simp
  show "(\<exists>f' label' vals'. read f label vals = Inr (True, f', label', vals'))
        \<or> read f label vals = Inl OutOfBounds \<or> read f label vals = Inl IndeterminateRead"
    if "\<not> at_end f"
    using that unfolding r read'_cases
    by (auto split: prod.splits sum.splits dest: read_pairs_error)
qed

text \<open>
  Claim C7 fails on a record line without pairs in a file of shape 1.  The file of the
  two lines \<open>1 1:0.5\<close> and \<open>2\<close> opens with shape 1 and 2 samples, and the first
  \<open>read\<close> returns true.  The second call has a vector of the right length and the line
  \<open>2\<close> in front of it, so the stream is not at its end, but the call does not return
  true: the label takes the whole line, the extraction of \<open>pos\<close> fails, and the write
  \<open>values(pos-1) = value\<close> uses both variables unassigned.
\<close>

theorem C7_label_only_line:
  "SVMFile [''data.svm'' \<mapsto> label_only] ''data.svm'' = Inr (opened label_only 1 2 label_only)
   \<and> read (opened label_only 1 2 label_only) 0 [0]
       = Inr (True, opened label_only 1 2 (''2'' @ [CHR 0x0A]), 1, [1 / 2])
   \<and> length [1 / 2 :: rat] = m_shape (opened label_only 1 2 (''2'' @ [CHR 0x0A]))
   \<and> next_line (m_file (opened label_only 1 2 (''2'' @ [CHR 0x0A])))
       = (\<lparr>data = label_only, rest = [], eofbit = False, failbit = False\<rparr>, ''2'')
   \<and> extract_int (stream_on ''2'')
       = (\<lparr>data = ''2'', rest = [], eofbit = True, failbit = False\<rparr>, Some 2)
   \<and> read (opened label_only 1 2 (''2'' @ [CHR 0x0A])) 1 [1 / 2] = Inl IndeterminateRead"
proof -
  have "SVMFile [''data.svm'' \<mapsto> label_only] ''data.svm'' = Inr (opened label_only 1 2 label_only)"
    by code_simp
  moreover have "read (opened label_only 1 2 label_only) 0 [0]
       = Inr (True, opened label_only 1 2 (''2'' @ [CHR 0x0A]), 1, [1 / 2])"
    by code_simp
  moreover have "length [1 / 2 :: rat] = m_shape (opened label_only 1 2 (''2'' @ [CHR 0x0A]))"
    by (simp add: opened_def)
  moreover have "next_line (m_file (opened label_only 1 2 (''2'' @ [CHR 0x0A])))
       = (\<lparr>data = label_only, rest = [], eofbit = False, failbit = False\<rparr>, ''2'')"
    by code_simp
  moreover have "extract_int (stream_on ''2'')
       = (\<lparr>data = ''2'', rest = [], eofbit = True, failbit = False\<rparr>, Some 2)"
    by code_simp
  moreover have "read (opened label_only 1 2 (''2'' @ [CHR 0x0A])) 1 [1 / 2] = Inl IndeterminateRead"
    by code_simp
  ultimately show ?thesis by blast
qed

section \<open>Passes over a file\<close>




lemma stream_on_data: "\<not> failbit s \<Longrightarrow> clear_seek0 s = stream_on (data s)"
  by (cases s) (simp add: clear_seek0_def stream_on_def)



lemma read_pairs_length:
  "read_pairs m iss pos vl vals = Inr vs \<Longrightarrow> length vs = length vals"
proof (induction m arbitrary: iss pos vl vals)
  case 0
  then show ?case by simp
next
  case (Suc m)
  then show ?case
    by (fastforce simp: Let_def split: prod.splits option.splits if_splits)
qed

lemma read_fields:
  assumes "read f label vals = Inr (b, f', label', vals')"
  shows "f' = f\<lparr>m_file := fst (next_line (m_file f))\<rparr>" and "length vals' = length vals"
    and "b = (\<not> at_end f)"
proof -
  from assms have r: "read' f label vals = Inr (b, f', label', vals')"
    by (simp add: read_def split: if_splits)
  show "f' = f\<lparr>m_file := fst (next_line (m_file f))\<rparr>"
    using r unfolding read'_cases by (auto split: if_splits prod.splits sum.splits)
  show "length vals' = length vals"
    using r unfolding read'_cases
    by (auto split: if_splits prod.splits sum.splits dest: read_pairs_length)
  show "b = (\<not> at_end f)"
    using r unfolding read'_cases by (auto split: if_splits prod.splits sum.splits)
qed

lemma read_True_remaining:
  assumes "read f label vals = Inr (True, f', label', vals')"
  shows "remaining (m_file f') < remaining (m_file f)"
proof -
  from read_fields [OF assms] have f': "f' = f\<lparr>m_file := fst (next_line (m_file f))\<rparr>"
    and "\<not> at_end f" by simp_all
  then have "good (m_file f)" by (simp add: at_end_def)
  from next_line_remaining [OF this] f' show ?thesis by simp
qed

text \<open>
  A pass over the file is the caller's loop \<open>while (file.read(label, values))\<close>: it
  collects the label and vector of every call that returns true, and ends with the call
  that returns false (\<open>None\<close>) or does not return (the error).
\<close>

function read_all :: "svmfile \<Rightarrow> int \<Rightarrow> rat list \<Rightarrow> (int \<times> rat list) list \<times> error option \<times> svmfile" where
  "read_all f label vals =
     (case read f label vals of
        Inl e \<Rightarrow> ([], Some e, f)
      | Inr (b, f', label', vals') \<Rightarrow>
          if b then (case read_all f' label' vals' of (rs, e, f'') \<Rightarrow> ((label', vals') # rs, e, f''))
          else ([], None, f'))"
  by pat_completeness auto
termination
proof (relation "measure (\<lambda>(f, label, vals). remaining (m_file f))", goal_cases)
  case 1
  show ?case by simp
next
  case (2 f label vals x b y f' z label' vals')
  then have "read f label vals = Inr (True, f', label', vals')" by simp
  from read_True_remaining [OF this] show ?case by simp
qed

declare read_all.simps [simp del]









section \<open>Reading again after \<open>reset\<close>\<close>






section \<open>Well-formed files\<close>

text \<open>
  A file is a sequence of lines, each ended by a newline.  A line is blank (white space
  only) or a record.  The largest index of a file is taken over all its records and is 0
  when there is none; its non-empty lines are its records.
\<close>

datatype line = Blank string | Record string "(string \<times> string) list"

fun render :: "line \<Rightarrow> string" where
  "render (Blank w) = w"
| "render (Record lab ps) = render_line lab ps"

fun valid_line :: "line \<Rightarrow> bool" where
  "valid_line (Blank w) = list_all (\<lambda>c. isspace c \<and> c \<noteq> CHR 0x0A) w"
| "valid_line (Record lab ps) = is_record lab ps"

fun line_indices :: "line \<Rightarrow> nat list" where
  "line_indices (Blank w) = []"
| "line_indices (Record lab ps) = map (\<lambda>p. nat (digits_val (fst p))) ps"

fun is_Record :: "line \<Rightarrow> bool" where
  "is_Record (Blank w) = False"
| "is_Record (Record lab ps) = True"

definition file_text :: "line list \<Rightarrow> string" where
  "file_text ls = concat (map (\<lambda>l. render l @ [CHR 0x0A]) ls)"

definition max_index :: "line list \<Rightarrow> nat" where
  "max_index ls = Max (insert 0 (set (concat (map line_indices ls))))"

definition nonempty_lines :: "line list \<Rightarrow> nat" where
  "nonempty_lines ls = length (filter is_Record ls)"

lemma scan_file_good:
  "good s \<Longrightarrow> scan_file s sh n =
     (case next_line s of (s', line) \<Rightarrow>
        if \<not> good s' then Inr (s', sh, n)
        else
          (case extract_int (stream_on line) of (iss, label) \<Rightarrow>
             (case scan_pairs (length (filter is_colon line)) iss None sh of
                Inl e \<Rightarrow> Inl e
              | Inr sh' \<Rightarrow> scan_file s' sh' (n + 1))))"
  by (subst scan_file.simps) (simp add: Let_def split: prod.splits)

lemma fold_max_indices:
  "fold (\<lambda>p s. max s (nat (digits_val (fst p)))) ps sh
     = fold max (map (\<lambda>p. nat (digits_val (fst p))) ps) sh"
  by (induction ps arbitrary: sh) (simp_all add: max.commute)

lemma scan_file_valid:
  "list_all valid_line ls
   \<Longrightarrow> scan_file (stream_at d (file_text ls) False) sh n
         = Inr (\<lparr>data = d, rest = [], eofbit = True, failbit = True\<rparr>,
                fold max (concat (map line_indices ls)) sh, n + nonempty_lines ls)"
proof (induction ls arbitrary: sh n)
  case Nil
  show ?case
    by (simp add: scan_file_good good_def file_text_def next_line_end nonempty_lines_def)
next
  case (Cons l ls)
  from Cons.prems have vl: "valid_line l" and vls: "list_all valid_line ls" by simp_all
  let ?s = "stream_at d (file_text ls) False"
  have ft: "file_text (l # ls) = render l @ CHR 0x0A # file_text ls"
    by (simp add: file_text_def)
  show ?case
  proof (cases l)
    case (Blank w)
    with vl have "next_line (stream_at d (file_text (l # ls)) False) = next_line ?s"
      using next_line_blank [of w d "file_text ls"] by (simp add: file_text_def)
    then have "scan_file (stream_at d (file_text (l # ls)) False) sh n = scan_file ?s sh n"
      by (simp add: scan_file_good good_def)
    with Cons.IH [OF vls, of sh n] Blank show ?thesis by (simp add: nonempty_lines_def)
  next
    case (Record lab ps)
    with vl have r: "is_record lab ps" by simp
    then have pv: "list_all (\<lambda>p. is_index (fst p) \<and> is_value (snd p)) ps"
      by (simp add: is_record_def)
    have "scan_file (stream_at d (file_text (l # ls)) False) sh n
            = scan_file ?s (fold (\<lambda>p s. max s (nat (digits_val (fst p)))) ps sh) (n + 1)"
      using next_line_record [OF r, of d "file_text ls"]
      by (simp add: scan_file_good good_def file_text_def Record
            record_colons [OF r] label_then_pairs [OF r] scan_pairs_valid [OF pv])
    with Cons.IH [OF vls] Record show ?thesis
      by (simp add: nonempty_lines_def fold_max_indices)
  qed
qed

lemma open_terminated_file:
  assumes "list_all valid_line ls" and "fs name = Some (file_text ls)"
  shows "SVMFile fs name =
           Inr \<lparr>m_filename = name, m_file = stream_on (file_text ls),
                m_shape = max_index ls, m_n_samples = nonempty_lines ls\<rparr>"
proof -
  have "fold max (concat (map line_indices ls)) 0 = Max (set (0 # concat (map line_indices ls)))"
    by (rule Max.set_eq_fold [symmetric])
  then have m: "fold max (concat (map line_indices ls)) 0 = max_index ls"
    by (simp add: max_index_def)
  have "scan_file (stream_on (file_text ls)) 0 0
          = Inr (\<lparr>data = file_text ls, rest = [], eofbit = True, failbit = True\<rparr>,
                 max_index ls, nonempty_lines ls)"
    using scan_file_valid [OF assms(1), of "file_text ls" 0 0] m by (simp add: stream_on_def)
  then show ?thesis
    by (simp add: SVMFile_def ifstream_open_def assms(2) stream_on_def clear_seek0_def)
qed


text \<open>
  The label and dense vector that a record stands for, and the lines on which \<open>read_\<close>
  is defined for a given length of the output vector.
\<close>

fun dense :: "nat \<Rightarrow> line \<Rightarrow> int \<times> rat list" where
  "dense sh (Blank w) = (0, [])"
| "dense sh (Record lab ps) = (label_val lab, store (take sh ps) (replicate sh 0))"

fun has_pairs :: "nat \<Rightarrow> line \<Rightarrow> bool" where
  "has_pairs sh (Blank w) = True"
| "has_pairs sh (Record lab ps) = (ps \<noteq> [] \<and> list_all (pair_ok sh) ps)"

lemma read_at_blank:
  assumes "list_all (\<lambda>c. isspace c \<and> c \<noteq> CHR 0x0A) w"
    and "m_file f = stream_at d (w @ CHR 0x0A # nxt) False"
  shows "read f label vals = read (f\<lparr>m_file := stream_at d nxt False\<rparr>) label vals"
proof -
  let ?f2 = "f\<lparr>m_file := stream_at d nxt False\<rparr>"
  have nl: "next_line (m_file f) = next_line (m_file ?f2)"
    using next_line_blank [OF assms(1), of d nxt] assms(2) by simp
  have "list_all isspace w" using assms(1) by (simp add: list_all_iff)
  moreover have "isspace CHR 0x0A" by (simp add: isspace_def)
  ultimately have "list_all isspace (w @ CHR 0x0A # nxt) = list_all isspace nxt" by simp
  then have ae: "at_end f = at_end ?f2" using assms(2) by (simp add: at_end_def good_def)
  have "read' f label vals = read' ?f2 label vals"
    unfolding read'_cases nl ae by (simp split: sum.splits prod.splits)
  then show ?thesis by (simp add: read_def)
qed

lemma read_all_valid:
  "list_all valid_line ls \<Longrightarrow> list_all (has_pairs (m_shape f)) ls
   \<Longrightarrow> m_file f = stream_at d (file_text ls) False \<Longrightarrow> length vals = m_shape f
   \<Longrightarrow> read_all f label vals
         = (map (dense (m_shape f)) (filter is_Record ls), None,
            f\<lparr>m_file := \<lparr>data = d, rest = [], eofbit = True, failbit = True\<rparr>\<rparr>)"
proof (induction ls arbitrary: f label vals)
  case Nil
  have "at_end f" using Nil.prems(3) by (simp add: at_end_def file_text_def)
  then have "read f label vals
      = Inr (False, f\<lparr>m_file := \<lparr>data = d, rest = [], eofbit = True, failbit = True\<rparr>\<rparr>, label, vals)"
    using Nil.prems(3,4) by (simp add: read_def read'_cases file_text_def next_line_end)
  then show ?case by (simp add: read_all.simps [of f])
next
  case (Cons l ls)
  from Cons.prems have vl: "valid_line l" and vls: "list_all valid_line ls"
    and hp: "has_pairs (m_shape f) l" and hps: "list_all (has_pairs (m_shape f)) ls"
    by simp_all
  let ?f2 = "f\<lparr>m_file := stream_at d (file_text ls) False\<rparr>"
  let ?end = "\<lparr>data = d, rest = [], eofbit = True, failbit = True\<rparr>"
  have mf: "m_file f = stream_at d (render l @ CHR 0x0A # file_text ls) False"
    using Cons.prems(3) by (simp add: file_text_def)
  have ih: "read_all ?f2 label' vals' = (map (dense (m_shape f)) (filter is_Record ls), None, f\<lparr>m_file := ?end\<rparr>)"
    if "length vals' = m_shape f" for label' vals'
    using Cons.IH [of ?f2 vals' label'] vls hps that by simp
  show ?case
  proof (cases l)
    case (Blank w)
    with vl mf have rd: "read f label vals = read ?f2 label vals"
      by (intro read_at_blank) simp_all
    from ih [OF Cons.prems(4), of label]
    have "read_all ?f2 label vals = (map (dense (m_shape f)) (filter is_Record ls), None, f\<lparr>m_file := ?end\<rparr>)" .
    moreover have "read_all f label vals = read_all ?f2 label vals"
    proof (cases "read ?f2 label vals")
      case (Inl e)
      then have "read_all ?f2 label vals = ([], Some e, ?f2)" by (simp add: read_all.simps [of ?f2])
      with calculation show ?thesis by simp
    next
      case (Inr r)
      with rd show ?thesis
        by (simp add: read_all.simps [of f] read_all.simps [of ?f2])
    qed
    ultimately show ?thesis using Blank by simp
  next
    case (Record lab ps)
    with vl hp have r: "is_record lab ps" and ne: "ps \<noteq> []"
      and ok: "list_all (pair_ok (m_shape f)) ps" by simp_all
    let ?vec = "store (take (m_shape f) ps) (replicate (m_shape f) 0)"
    have rp: "read_pairs (m_shape f) (stream_at (render_line lab ps) (render_pairs ps) False)
               None None (replicate (length vals) 0) = Inr ?vec"
      using ne ok Cons.prems(4) read_pairs_valid [of ps "replicate (m_shape f) 0" "m_shape f"]
      by simp
    have "read f label vals = Inr (True, ?f2, label_val lab, ?vec)"
      using read'_record [OF r, of f d "file_text ls" label vals] mf Record ne rp Cons.prems(4)
      by (simp add: read_def)
    then have "read_all f label vals
        = (case read_all ?f2 (label_val lab) ?vec of (rs, e, f'') \<Rightarrow> ((label_val lab, ?vec) # rs, e, f''))"
      by (simp add: read_all.simps [of f])
    with ih [of ?vec "label_val lab"] Record show ?thesis by simp
  qed
qed

lemma index_le_max:
  assumes "Record lab ps \<in> set ls" and "p \<in> set ps"
  shows "nat (digits_val (fst p)) \<le> max_index ls"
proof -
  have "nat (digits_val (fst p)) \<in> set (line_indices (Record lab ps))" using assms(2) by simp
  with assms(1) have "nat (digits_val (fst p)) \<in> set (concat (map line_indices ls))"
    by (metis (no_types, lifting) UN_I image_eqI list.set_map set_concat)
  then show ?thesis by (simp add: max_index_def)
qed

lemma valid_has_pairs:
  assumes "list_all valid_line ls" and "\<forall>lab. Record lab [] \<notin> set ls"
  shows "list_all (has_pairs (max_index ls)) ls"
proof -
  have "has_pairs (max_index ls) l" if "l \<in> set ls" for l
  proof (cases l)
    case (Blank w)
    then show ?thesis by simp
  next
    case (Record lab ps)
    with that assms(2) have ne: "ps \<noteq> []" by auto
    from that assms(1) Record have r: "is_record lab ps" by (auto simp: list_all_iff)
    have "pair_ok (max_index ls) p" if p: "p \<in> set ps" for p
    proof -
      from r p have "is_index (fst p)" "is_value (snd p)" by (auto simp: is_record_def list_all_iff)
      moreover from index_le_max [OF \<open>l \<in> set ls\<close> [unfolded Record] p]
      have "digits_val (fst p) \<le> int (max_index ls)" by simp
      ultimately show ?thesis by (simp add: pair_ok_def)
    qed
    with ne Record show ?thesis by (simp add: list_all_iff)
  qed
  then show ?thesis by (simp add: list_all_iff)
qed

lemma pass_terminated_file:
  assumes "list_all valid_line ls" and "\<forall>lab. Record lab [] \<notin> set ls"
    and "fs name = Some (file_text ls)" and "length vals = max_index ls"
  shows "\<exists>f0 f1. SVMFile fs name = Inr f0
           \<and> read_all f0 label vals = (map (dense (max_index ls)) (filter is_Record ls), None, f1)"
proof -
  let ?f0 = "\<lparr>m_filename = name, m_file = stream_on (file_text ls),
                m_shape = max_index ls, m_n_samples = nonempty_lines ls\<rparr>"
  have o: "SVMFile fs name = Inr ?f0" using assms(1,3) by (rule open_terminated_file)
  have "read_all ?f0 label vals
          = (map (dense (m_shape ?f0)) (filter is_Record ls), None,
             ?f0\<lparr>m_file := \<lparr>data = file_text ls, rest = [], eofbit = True, failbit = True\<rparr>\<rparr>)"
    using valid_has_pairs [OF assms(1,2)] assms(1,4)
    by (intro read_all_valid) (simp_all add: stream_on_def)
  with o show ?thesis by auto
qed

section \<open>Shape and sample count of a file\<close>

definition two_records :: "line list" where
  "two_records = [Record ''1'' [(''1'', ''0.5'')], Record ''-1'' [(''2'', ''1.0'')]]"

definition unterminated :: string where
  "unterminated = ''1 1:0.5'' @ [CHR 0x0A] @ ''-1 2:1.0''"

text \<open>
  Claim C2 holds for the files whose last line is ended by a newline (lemma
  \<open>open_terminated_file\<close>).  It fails on a last line without newline: \<open>getline\<close> then
  sets \<open>eofbit\<close>, and the constructor leaves its loop on \<open>!m_file.good()\<close> before it has
  looked at the line.  On the two records below the file with a final newline opens with
  shape 2 and 2 samples; without it, with shape 1 and 1 sample, although \<open>read\<close> still
  delivers the first record and \<open>read_\<close> takes up the last line too, where it writes
  index 2 into a vector of the length 1 that the constructor found.
\<close>

theorem C2_unterminated_last_line:
  "list_all valid_line two_records
   \<and> max_index two_records = 2 \<and> nonempty_lines two_records = 2
   \<and> file_text two_records = unterminated @ [CHR 0x0A]
   \<and> SVMFile [''data.svm'' \<mapsto> file_text two_records] ''data.svm''
       = Inr (opened (file_text two_records) 2 2 (file_text two_records))
   \<and> SVMFile [''data.svm'' \<mapsto> unterminated] ''data.svm''
       = Inr (opened unterminated 1 1 unterminated)
   \<and> next_line \<lparr>data = unterminated, rest = ''-1 2:1.0'', eofbit = False, failbit = False\<rparr>
       = (\<lparr>data = unterminated, rest = [], eofbit = True, failbit = False\<rparr>, ''-1 2:1.0'')
   \<and> read (opened unterminated 1 1 unterminated) 0 [0]
       = Inr (True, opened unterminated 1 1 ''-1 2:1.0'', 1, [1 / 2])
   \<and> read (opened unterminated 1 1 ''-1 2:1.0'') 1 [1 / 2] = Inl OutOfBounds"
proof -
  have "list_all valid_line two_records" by code_simp
  moreover have "max_index two_records = 2" by code_simp
  moreover have "nonempty_lines two_records = 2" by code_simp
  moreover have "file_text two_records = unterminated @ [CHR 0x0A]" by code_simp
  moreover have "SVMFile [''data.svm'' \<mapsto> file_text two_records] ''data.svm''
       = Inr (opened (file_text two_records) 2 2 (file_text two_records))" by code_simp
  moreover have "SVMFile [''data.svm'' \<mapsto> unterminated] ''data.svm''
       = Inr (opened unterminated 1 1 unterminated)" by code_simp
  moreover have "next_line \<lparr>data = unterminated, rest = ''-1 2:1.0'', eofbit = False, failbit = False\<rparr>
       = (\<lparr>data = unterminated, rest = [], eofbit = True, failbit = False\<rparr>, ''-1 2:1.0'')"
    by code_simp
  moreover have "read (opened unterminated 1 1 unterminated) 0 [0]
       = Inr (True, opened unterminated 1 1 ''-1 2:1.0'', 1, [1 / 2])" by code_simp
  moreover have "read (opened unterminated 1 1 ''-1 2:1.0'') 1 [1 / 2] = Inl OutOfBounds"
    by code_simp
  ultimately show ?thesis by blast
qed

end
